theory Spec2Isabelle
  imports Complex_Main "HOL-Library.Word"
begin

unbundle bit_operations_syntax

section \<open>The friend graph of \<open>src/graph.js\<close>\<close>

text \<open>
  The development embeds class \<open>Graph\<close> of \<open>graph.js\<close>: the node store with slot reuse,
  the edge list with its pair index and adjacency sets, and the force step \<open>update\<close>.

  Conventions of the embedding.
  \<^item> Node indices are array indices, hence \<open>nat\<close>.
  \<^item> A JavaScript array is a list; reading beyond its end gives \<open>undefined\<close> and writing
    beyond its end extends the array, leaving holes that read as \<open>undefined\<close>. Both are
    written out (\<open>slot_at\<close>, \<open>adj_at\<close>, \<open>js_set\<close>).
  \<^item> A call returns a pair: its result and the graph it leaves behind. A thrown
    \<open>TypeError\<close> (a property access on \<open>null\<close> or \<open>undefined\<close>) is the result
    \<open>Inl TypeError\<close>, and the graph beside it is the state at the moment of the throw.
  \<^item> A \<open>Date\<close> is its time value, an integer number of milliseconds, or an Invalid
    Date.
  \<^item> JavaScript numbers that are coordinates and forces are modelled as real numbers:
    rounding and overflow of IEEE doubles are outside the model. Of the divisors of
    \<open>update\<close>, \<open>springRest\<close> is a positive constant, the clamped distance is at least 1,
    and the unclamped length of \<open>r\<close> in \<open>vec2.div(r, dist)\<close> is positive by lemma
    \<open>pair_len_pos\<close> below: no division by zero is hidden in the model.
  \<^item> The tunables \<open>springK\<close>, \<open>springRest\<close>, \<open>repelK\<close>, \<open>closeRepelK\<close>,
    \<open>centerK\<close> and the table \<open>jitter\<close> are assigned once, by the constructor, from
    literals, and no method writes them: they are constants here.
\<close>

subsection \<open>Vectors\<close>

type_synonym vec = "real \<times> real"

text \<open>
  Modelled from the spec: the \<open>vec2\<close> helper library is not part of the sources at hand.
  The spec describes \<open>r = pos(j) - pos(i)\<close>, "if r is the zero vector (coincident
  positions)", \<open>length(r)\<close>, \<open>r / dist\<close> and \<open>F * dir\<close>; the functions below are
  componentwise sum and difference, scaling by a number, the Euclidean length and exact
  equality of both components.
\<close>

definition vec2 :: "real \<Rightarrow> real \<Rightarrow> vec" where
  "vec2 x y = (x, y)"

definition vec2_add :: "vec \<Rightarrow> vec \<Rightarrow> vec" where
  "vec2_add a b = (fst a + fst b, snd a + snd b)"

definition vec2_sub :: "vec \<Rightarrow> vec \<Rightarrow> vec" where
  "vec2_sub a b = (fst a - fst b, snd a - snd b)"

definition vec2_mul :: "vec \<Rightarrow> real \<Rightarrow> vec" where
  "vec2_mul a s = (fst a * s, snd a * s)"

definition vec2_div :: "vec \<Rightarrow> real \<Rightarrow> vec" where
  "vec2_div a s = (fst a / s, snd a / s)"

definition vec2_len :: "vec \<Rightarrow> real" where
  "vec2_len a = sqrt (fst a * fst a + snd a * snd a)"

definition vec2_eq :: "vec \<Rightarrow> vec \<Rightarrow> bool" where
  "vec2_eq a b \<longleftrightarrow> fst a = fst b \<and> snd a = snd b"

definition vec2_neg :: "vec \<Rightarrow> vec" where
  "vec2_neg a = (- fst a, - snd a)"

subsection \<open>Data\<close>

record Node =
  name :: string
  image :: "string option"
  pos :: vec

definition new_Node :: "string \<Rightarrow> Node" where
  "new_Node nm = \<lparr> name = nm, image = None, pos = vec2 0 0 \<rparr>"

text \<open>
  An element of \<open>this.nodes\<close>: a hole of the array (\<open>undefined\<close>), \<open>null\<close> (a freed
  slot) or a node.
\<close>

datatype slot = Hole | Free | Live Node

text \<open>
  A \<open>Date\<close> object: a time value in milliseconds, or an Invalid Date (the UI's
  \<open>parseYearInput\<close> builds one from an input that is not a number), whose \<open>getTime()\<close> is
  \<open>NaN\<close>. \<open>getTime\<close> gives \<open>None\<close> for \<open>NaN\<close>, and \<open>js_less\<close> is the comparison \<open><\<close>
  of two numbers, which is false as soon as one of them is \<open>NaN\<close>.
\<close>

datatype date = Date int | Invalid_Date

fun getTime :: "date \<Rightarrow> int option" where
  "getTime (Date ms) = Some ms"
| "getTime Invalid_Date = None"

fun js_less :: "int option \<Rightarrow> int option \<Rightarrow> bool" where
  "js_less (Some x) (Some y) = (x < y)"
| "js_less _ _ = False"

type_synonym edge = "nat \<times> nat \<times> date"

datatype error = TypeError

record Graph =
  nodes :: "slot list"
  edges :: "edge list"
  pairToEdgeIndex :: "string \<rightharpoonup> nat"
  adj :: "nat set option list"

definition Graph_new :: Graph where
  "Graph_new = \<lparr> nodes = [], edges = [], pairToEdgeIndex = Map.empty, adj = [] \<rparr>"

definition springK :: real where "springK = 0.6"
definition springRest :: real where "springRest = 140"
definition repelK :: real where "repelK = 2600"
definition closeRepelK :: real where "closeRepelK = 500"
definition centerK :: real where "centerK = 0.020"

definition jitter :: "vec list" where
  "jitter = [vec2 2.5 0, vec2 1.8 1.8, vec2 0 2.5, vec2 (-1.8) 1.8,
             vec2 (-2.5) 0, vec2 (-1.8) (-1.8), vec2 0 (-2.5), vec2 1.8 (-1.8)]"

subsection \<open>JavaScript arrays\<close>

definition slot_at :: "Graph \<Rightarrow> nat \<Rightarrow> slot" where
  "slot_at g i = (if i < length (nodes g) then nodes g ! i else Hole)"

definition adj_at :: "Graph \<Rightarrow> nat \<Rightarrow> nat set option" where
  "adj_at g i = (if i < length (adj g) then adj g ! i else None)"

definition js_set :: "'a \<Rightarrow> 'a list \<Rightarrow> nat \<Rightarrow> 'a \<Rightarrow> 'a list" where
  "js_set hole xs i v =
     (if i < length xs then xs[i := v] else xs @ replicate (i - length xs) hole @ [v])"

subsection \<open>The pair key \<open>a + ":" + b\<close>\<close>

definition digit_char :: "nat \<Rightarrow> char" where
  "digit_char d = ''0123456789'' ! d"

fun num_str :: "nat \<Rightarrow> string" where
  "num_str n = (if n < 10 then [digit_char n] else num_str (n div 10) @ [digit_char (n mod 10)])"

declare num_str.simps [simp del]

definition pair_key :: "nat \<Rightarrow> nat \<Rightarrow> string" where
  "pair_key a b = num_str a @ '':'' @ num_str b"

subsection \<open>Node store\<close>

text \<open>
  First loop of \<open>getOrCreateNodeIndex\<close>: \<open>n !== null && n.name === name\<close>. On a hole
  \<open>n\<close> is \<open>undefined\<close>, which is not \<open>null\<close>, and \<open>n.name\<close> throws.
\<close>

fun find_name :: "slot list \<Rightarrow> string \<Rightarrow> nat \<Rightarrow> error + nat option" where
  "find_name [] nm idx = Inr None"
| "find_name (Hole # ss) nm idx = Inl TypeError"
| "find_name (Free # ss) nm idx = find_name ss nm (Suc idx)"
| "find_name (Live n # ss) nm idx =
     (if name n = nm then Inr (Some idx) else find_name ss nm (Suc idx))"

text \<open>Second loop: the first index whose slot is \<open>null\<close>.\<close>

fun find_free :: "slot list \<Rightarrow> nat \<Rightarrow> nat option" where
  "find_free [] idx = None"
| "find_free (s # ss) idx = (if s = Free then Some idx else find_free ss (Suc idx))"

definition getOrCreateNodeIndex :: "Graph \<Rightarrow> string \<Rightarrow> (error + nat) \<times> Graph" where
  "getOrCreateNodeIndex g nm =
     (case find_name (nodes g) nm 0 of
        Inl e \<Rightarrow> (Inl e, g)
      | Inr (Some idx) \<Rightarrow> (Inr idx, g)
      | Inr None \<Rightarrow>
          (case find_free (nodes g) 0 of
             Some idx \<Rightarrow>
               (Inr idx, g\<lparr> nodes := (nodes g)[idx := Live (new_Node nm)],
                           adj := js_set None (adj g) idx (Some {}) \<rparr>)
           | None \<Rightarrow>
               (Inr (length (nodes g)),
                g\<lparr> nodes := nodes g @ [Live (new_Node nm)], adj := adj g @ [Some {}] \<rparr>)))"

definition isFree :: "Graph \<Rightarrow> nat \<Rightarrow> bool" where
  "isFree g i \<longleftrightarrow> slot_at g i = Free"

definition degree :: "Graph \<Rightarrow> nat \<Rightarrow> error + nat" where
  "degree g i = (case adj_at g i of None \<Rightarrow> Inl TypeError | Some s \<Rightarrow> Inr (card s))"

definition renameNode :: "Graph \<Rightarrow> nat \<Rightarrow> string \<Rightarrow> (error + unit) \<times> Graph" where
  "renameNode g i newName =
     (case slot_at g i of
        Live n \<Rightarrow> (Inr (), g\<lparr> nodes := (nodes g)[i := Live (n\<lparr> name := newName \<rparr>)] \<rparr>)
      | _ \<Rightarrow> (Inl TypeError, g))"

subsection \<open>Edge index\<close>

text \<open>\<open>this._adj[a].add(b)\<close>; \<open>None\<close> when \<open>this._adj[a]\<close> is \<open>undefined\<close>.\<close>

definition adj_add :: "Graph \<Rightarrow> nat \<Rightarrow> nat \<Rightarrow> Graph option" where
  "adj_add g a b =
     (case adj_at g a of
        None \<Rightarrow> None
      | Some s \<Rightarrow> Some (g\<lparr> adj := (adj g)[a := Some (insert b s)] \<rparr>))"

definition addOrUpdateEdge :: "Graph \<Rightarrow> nat \<Rightarrow> nat \<Rightarrow> date \<Rightarrow> (error + unit) \<times> Graph" where
  "addOrUpdateEdge g i j d =
     (let a = (if i < j then i else j);
          b = (if i < j then j else i);
          key = pair_key a b
      in case pairToEdgeIndex g key of
           Some existing \<Rightarrow>
             if existing < length (edges g) then
               (case edges g ! existing of
                  (ea, eb, ed) \<Rightarrow>
                    if js_less (getTime d) (getTime ed)
                    then (Inr (), g\<lparr> edges := (edges g)[existing := (ea, eb, d)] \<rparr>)
                    else (Inr (), g))
             else (Inl TypeError, g)
         | None \<Rightarrow>
             (let idx = length (edges g);
                  g1 = g\<lparr> edges := edges g @ [(a, b, d)] \<rparr>;
                  g2 = g1\<lparr> pairToEdgeIndex := (pairToEdgeIndex g1)(key \<mapsto> idx) \<rparr>
              in case adj_add g2 a b of
                   None \<Rightarrow> (Inl TypeError, g2)
                 | Some g3 \<Rightarrow>
                     (case adj_add g3 b a of
                        None \<Rightarrow> (Inl TypeError, g3)
                      | Some g4 \<Rightarrow> (Inr (), g4))))"

text \<open>
  The loop of \<open>_rebuildEdgeIndex\<close> over the edge list, \<open>e\<close> being the position of the
  first edge still to be visited.
\<close>

fun rebuild_loop :: "Graph \<Rightarrow> nat \<Rightarrow> edge list \<Rightarrow> (error + unit) \<times> Graph" where
  "rebuild_loop g e [] = (Inr (), g)"
| "rebuild_loop g e ((a, b, d) # rest) =
     (let g1 = g\<lparr> pairToEdgeIndex := (pairToEdgeIndex g)(pair_key a b \<mapsto> e) \<rparr>
      in case adj_add g1 a b of
           None \<Rightarrow> (Inl TypeError, g1)
         | Some g2 \<Rightarrow>
             (case adj_add g2 b a of
                None \<Rightarrow> (Inl TypeError, g2)
              | Some g3 \<Rightarrow> rebuild_loop g3 (Suc e) rest))"

definition rebuildEdgeIndex :: "Graph \<Rightarrow> (error + unit) \<times> Graph" where
  "rebuildEdgeIndex g =
     rebuild_loop (g\<lparr> pairToEdgeIndex := Map.empty, adj := map (\<lambda>_. Some {}) (adj g) \<rparr>)
       0 (edges g)"

definition incident :: "nat \<Rightarrow> edge \<Rightarrow> bool" where
  "incident i e \<longleftrightarrow> fst e = i \<or> fst (snd e) = i"

definition deleteNode :: "Graph \<Rightarrow> nat \<Rightarrow> (error + (nat \<times> nat) list) \<times> Graph" where
  "deleteNode g i =
     (if slot_at g i = Free then (Inr [], g)
      else
        (let g1 = g\<lparr> nodes := js_set Hole (nodes g) i Free,
                     adj := js_set None (adj g) i (Some {}) \<rparr>;
             removedPairs = map (\<lambda>e. (fst e, fst (snd e))) (filter (incident i) (edges g));
             kept = filter (\<lambda>e. \<not> incident i e) (edges g);
             g2 = g1\<lparr> edges := kept \<rparr>
         in case rebuildEdgeIndex g2 of
              (Inl e, g3) \<Rightarrow> (Inl e, g3)
            | (Inr _, g3) \<Rightarrow> (Inr removedPairs, g3)))"

subsection \<open>Friend groups\<close>

text \<open>First loop of \<open>addFriendGroup\<close>: every name is resolved, in order.\<close>

fun resolve_names :: "Graph \<Rightarrow> string list \<Rightarrow> (error + nat list) \<times> Graph" where
  "resolve_names g [] = (Inr [], g)"
| "resolve_names g (nm # nms) =
     (case getOrCreateNodeIndex g nm of
        (Inl e, g1) \<Rightarrow> (Inl e, g1)
      | (Inr idx, g1) \<Rightarrow>
          (case resolve_names g1 nms of
             (Inl e, g2) \<Rightarrow> (Inl e, g2)
           | (Inr idxs, g2) \<Rightarrow> (Inr (idx # idxs), g2)))"

text \<open>Inner loop: \<open>indices[a]\<close> is paired with every later element.\<close>

fun add_edges_from :: "Graph \<Rightarrow> nat \<Rightarrow> nat list \<Rightarrow> date \<Rightarrow> (error + unit) \<times> Graph" where
  "add_edges_from g x [] d = (Inr (), g)"
| "add_edges_from g x (y # ys) d =
     (case addOrUpdateEdge g x y d of
        (Inl e, g1) \<Rightarrow> (Inl e, g1)
      | (Inr _, g1) \<Rightarrow> add_edges_from g1 x ys d)"

fun add_all_pairs :: "Graph \<Rightarrow> nat list \<Rightarrow> date \<Rightarrow> (error + unit) \<times> Graph" where
  "add_all_pairs g [] d = (Inr (), g)"
| "add_all_pairs g (x # xs) d =
     (case add_edges_from g x xs d of
        (Inl e, g1) \<Rightarrow> (Inl e, g1)
      | (Inr _, g1) \<Rightarrow> add_all_pairs g1 xs d)"

definition addFriendGroup :: "Graph \<Rightarrow> string list \<Rightarrow> date \<Rightarrow> (error + unit) \<times> Graph" where
  "addFriendGroup g names d =
     (case resolve_names g names of
        (Inl e, g1) \<Rightarrow> (Inl e, g1)
      | (Inr indices, g1) \<Rightarrow> add_all_pairs g1 indices d)"

subsection \<open>Force step\<close>

text \<open>
  The separation vector \<open>r\<close> of a pair (\<open>p_i\<close>, \<open>p_j\<close> are the source's \<open>pi\<close>,
  \<open>pj\<close>, and \<open>dst\<close> below is its \<open>dist\<close>): \<open>pj\<close> is moved by \<open>jitter[j & 7]\<close> when the
  two positions are equal.
\<close>

definition pair_r :: "nat \<Rightarrow> vec \<Rightarrow> vec \<Rightarrow> vec" where
  "pair_r j p_i p_j =
     (let p_j' = (if vec2_eq p_i p_j then vec2_add p_j (jitter ! (j AND 7)) else p_j)
      in vec2_sub p_j' p_i)"

text \<open>\<open>dir = vec2.div(r, vec2.len(r))\<close>, computed before the distance is clamped.\<close>

definition pair_dir :: "nat \<Rightarrow> vec \<Rightarrow> vec \<Rightarrow> vec" where
  "pair_dir j p_i p_j = (let r = pair_r j p_i p_j; dst = vec2_len r in vec2_div r dst)"

text \<open>\<open>dist = Math.max(dist, 1)\<close>, the distance used by the force magnitudes.\<close>

definition pair_dist :: "nat \<Rightarrow> vec \<Rightarrow> vec \<Rightarrow> real" where
  "pair_dist j p_i p_j = max (vec2_len (pair_r j p_i p_j)) 1"

definition fSpring :: "vec \<Rightarrow> real \<Rightarrow> vec" where
  "fSpring dir dst =
     (let stretch = dst - springRest;
          fMag = springK * stretch * \<bar>stretch\<bar> / springRest
      in vec2_mul dir fMag)"

definition frep :: "vec \<Rightarrow> real \<Rightarrow> vec" where
  "frep dir dst = (let fRepel = repelK / (dst * dst) in vec2_mul dir fRepel)"

definition fcl :: "vec \<Rightarrow> real \<Rightarrow> vec" where
  "fcl dir dst = (let fClose = closeRepelK / (dst * dst * dst * dst) in vec2_mul dir fClose)"

text \<open>
  The two ways a term enters the accumulators: \<open>forces[i2] + f, forces[j] - f\<close> for the
  spring, \<open>forces[i2] - f, forces[j] + f\<close> for both repulsions.
\<close>

definition pull :: "vec list \<Rightarrow> nat \<Rightarrow> nat \<Rightarrow> vec \<Rightarrow> vec list" where
  "pull forces i2 j f =
     (let forces1 = forces[i2 := vec2_add (forces ! i2) f]
      in forces1[j := vec2_sub (forces1 ! j) f])"

definition push :: "vec list \<Rightarrow> nat \<Rightarrow> nat \<Rightarrow> vec \<Rightarrow> vec list" where
  "push forces i2 j f =
     (let forces1 = forces[i2 := vec2_sub (forces ! i2) f]
      in forces1[j := vec2_add (forces1 ! j) f])"

text \<open>
  The body of the inner loop, entered when neither slot is \<open>null\<close>. Reading \<open>.pos\<close> of
  a hole and \<open>.has\<close> of a missing adjacency set throw.
\<close>

definition pair_step :: "Graph \<Rightarrow> nat \<Rightarrow> nat \<Rightarrow> vec list \<Rightarrow> error + vec list" where
  "pair_step g i2 j forces =
     (case slot_at g i2 of
        Live ni \<Rightarrow>
          (case slot_at g j of
             Live nj \<Rightarrow>
               (let dir = pair_dir j (pos ni) (pos nj);
                    dst = pair_dist j (pos ni) (pos nj)
                in case adj_at g i2 of
                     None \<Rightarrow> Inl TypeError
                   | Some s \<Rightarrow>
                       (let connected = (j \<in> s);
                            forces1 = (if connected then pull forces i2 j (fSpring dir dst)
                                       else push forces i2 j (frep dir dst))
                        in Inr (push forces1 i2 j (fcl dir dst))))
           | _ \<Rightarrow> Inl TypeError)
      | _ \<Rightarrow> Inl TypeError)"

fun inner_loop :: "Graph \<Rightarrow> nat \<Rightarrow> nat list \<Rightarrow> vec list \<Rightarrow> error + vec list" where
  "inner_loop g i2 [] forces = Inr forces"
| "inner_loop g i2 (j # js) forces =
     (if slot_at g j = Free then inner_loop g i2 js forces
      else case pair_step g i2 j forces of
             Inl e \<Rightarrow> Inl e
           | Inr forces1 \<Rightarrow> inner_loop g i2 js forces1)"

fun outer_loop :: "Graph \<Rightarrow> nat \<Rightarrow> nat list \<Rightarrow> vec list \<Rightarrow> error + vec list" where
  "outer_loop g n [] forces = Inr forces"
| "outer_loop g n (i2 # is) forces =
     (if slot_at g i2 = Free then outer_loop g n is forces
      else case inner_loop g i2 [Suc i2..<n] forces of
             Inl e \<Rightarrow> Inl e
           | Inr forces1 \<Rightarrow> outer_loop g n is forces1)"

text \<open>Faint pull to the centre.\<close>

fun center_loop :: "Graph \<Rightarrow> nat list \<Rightarrow> vec list \<Rightarrow> error + vec list" where
  "center_loop g [] forces = Inr forces"
| "center_loop g (k # ks) forces =
     (case slot_at g k of
        Free \<Rightarrow> center_loop g ks forces
      | Live nk \<Rightarrow>
          center_loop g ks (forces[k := vec2_sub (forces ! k) (vec2_mul (pos nk) centerK)])
      | Hole \<Rightarrow> Inl TypeError)"

text \<open>The last loop writes the positions.\<close>

fun move_loop :: "Graph \<Rightarrow> real \<Rightarrow> vec list \<Rightarrow> nat list \<Rightarrow> (error + unit) \<times> Graph" where
  "move_loop g dt forces [] = (Inr (), g)"
| "move_loop g dt forces (m # ms) =
     (case slot_at g m of
        Free \<Rightarrow> move_loop g dt forces ms
      | Live nm \<Rightarrow>
          move_loop
            (g\<lparr> nodes := (nodes g)
                 [m := Live (nm\<lparr> pos := vec2_add (pos nm) (vec2_mul (forces ! m) dt) \<rparr>)] \<rparr>)
            dt forces ms
      | Hole \<Rightarrow> (Inl TypeError, g))"

definition update :: "Graph \<Rightarrow> real \<Rightarrow> (error + unit) \<times> Graph" where
  "update g t =
     (let n = length (nodes g)
      in if n = 0 then (Inr (), g)
         else
           (case outer_loop g n [0..<n] (replicate n (vec2 0 0)) of
              Inl e \<Rightarrow> (Inl e, g)
            | Inr forces1 \<Rightarrow>
                (case center_loop g [0..<n] forces1 of
                   Inl e \<Rightarrow> (Inl e, g)
                 | Inr forces2 \<Rightarrow> move_loop g t forces2 [0..<n])))"

subsection \<open>States and their consistency\<close>

text \<open>A slot holds a node.\<close>

definition live :: "Graph \<Rightarrow> nat \<Rightarrow> bool" where
  "live g i = (case slot_at g i of Live n \<Rightarrow> True | _ \<Rightarrow> False)"

text \<open>The adjacency set of an index, empty where the array has none.\<close>

definition adj_set :: "Graph \<Rightarrow> nat \<Rightarrow> nat set" where
  "adj_set g i = (case adj_at g i of Some s \<Rightarrow> s | None \<Rightarrow> {})"

text \<open>The endpoints of an edge, and the endpoint pairs of the edge list in storage order.\<close>

definition ends :: "edge \<Rightarrow> nat \<times> nat" where
  "ends e = (fst e, fst (snd e))"

definition pairs :: "Graph \<Rightarrow> (nat \<times> nat) list" where
  "pairs g = map ends (edges g)"

definition joined :: "Graph \<Rightarrow> nat \<Rightarrow> nat \<Rightarrow> bool" where
  "joined g x y \<longleftrightarrow> (x, y) \<in> set (pairs g) \<or> (y, x) \<in> set (pairs g)"

text \<open>
  The states the public operations can produce from the constructor's. The arguments are
  arbitrary, except that \<open>addOrUpdateEdge\<close> is called with live endpoints; a call that
  throws leaves the state in which it threw.
\<close>

inductive reachable :: "Graph \<Rightarrow> bool" where
  r_new: "reachable Graph_new"
| r_getOrCreate: "reachable g \<Longrightarrow> reachable (snd (getOrCreateNodeIndex g nm))"
| r_addFriendGroup: "reachable g \<Longrightarrow> reachable (snd (addFriendGroup g names d))"
| r_addOrUpdateEdge:
    "reachable g \<Longrightarrow> live g i \<Longrightarrow> live g j \<Longrightarrow> reachable (snd (addOrUpdateEdge g i j d))"
| r_renameNode: "reachable g \<Longrightarrow> reachable (snd (renameNode g i newName))"
| r_deleteNode: "reachable g \<Longrightarrow> reachable (snd (deleteNode g i))"
| r_update: "reachable g \<Longrightarrow> reachable (snd (update g t))"

definition all_sets :: "Graph \<Rightarrow> bool" where
  "all_sets g \<longleftrightarrow> (\<forall>x < length (adj g). adj g ! x \<noteq> None)"

definition key_of :: "nat \<times> nat \<Rightarrow> string" where
  "key_of ab = pair_key (fst ab) (snd ab)"

text \<open>
  The invariant behind the claims: both arrays have the same length, every adjacency
  entry is a set, every edge is stored with its smaller endpoint first and joins live
  slots, the pair index holds exactly the key of every stored edge at its position, and
  the adjacency sets hold exactly the stored edges.
\<close>

definition inv :: "Graph \<Rightarrow> bool" where
  "inv g \<longleftrightarrow>
     length (adj g) = length (nodes g)
     \<and> all_sets g
     \<and> (\<forall>ab \<in> set (pairs g). fst ab \<le> snd ab \<and> live g (fst ab) \<and> live g (snd ab))
     \<and> (\<forall>k p. pairToEdgeIndex g k = Some p \<longleftrightarrow>
            p < length (pairs g) \<and> key_of (pairs g ! p) = k)
     \<and> (\<forall>x y. y \<in> adj_set g x \<longleftrightarrow> joined g x y)"

text \<open>
  What every call leaves true of the arrays, whatever its arguments and whether or not it
  throws: the adjacency array is as long as the node array and holds a set at every
  index, and every position in the pair index is a position of the edge list.
\<close>

definition sound :: "Graph \<Rightarrow> bool" where
  "sound g \<longleftrightarrow>
     length (adj g) = length (nodes g)
     \<and> all_sets g
     \<and> (\<forall>k p. pairToEdgeIndex g k = Some p \<longrightarrow> p < length (edges g))"

text \<open>
  Exactness of the adjacency sets with respect to the edge list, for the index pairs
  \<open>(a, b)\<close> that \<open>R a b\<close> admits: \<open>b\<close> is in the adjacency set of \<open>a\<close> exactly when the edge
  \<open>(a, b)\<close> is stored, and so is \<open>a\<close> in the adjacency set of \<open>b\<close>.
\<close>

definition adjacency_exact :: "(nat \<Rightarrow> nat \<Rightarrow> bool) \<Rightarrow> Graph \<Rightarrow> bool" where
  "adjacency_exact R g \<longleftrightarrow>
     (\<forall>a b. R a b \<longrightarrow> (b \<in> adj_set g a \<longleftrightarrow> (a, b) \<in> set (pairs g))
                     \<and> (a \<in> adj_set g b \<longleftrightarrow> (a, b) \<in> set (pairs g)))"

text \<open>
  Exactness of the pair index, for the same pairs: it maps the key of every stored edge
  \<open>(a, b)\<close> to the position of that edge, and each of its entries is the key of an admitted
  pair whose edge is stored at that position.
\<close>

definition index_exact :: "(nat \<Rightarrow> nat \<Rightarrow> bool) \<Rightarrow> Graph \<Rightarrow> bool" where
  "index_exact R g \<longleftrightarrow>
     (\<forall>a b p. R a b \<longrightarrow> p < length (edges g) \<and> ends (edges g ! p) = (a, b) \<longrightarrow>
          pairToEdgeIndex g (pair_key a b) = Some p)
     \<and> (\<forall>k p. pairToEdgeIndex g k = Some p \<longrightarrow>
            (\<exists>a b. R a b \<and> k = pair_key a b \<and> p < length (edges g) \<and> ends (edges g ! p) = (a, b)))"

text \<open>
  The date that lines 209 to 211 of \<open>addOrUpdateEdge\<close> leave in an existing edge: the new
  one if its time is less than the stored one's, else the stored one.
\<close>

definition earliest :: "date \<Rightarrow> date \<Rightarrow> date" where
  "earliest stored new = (if js_less (getTime new) (getTime stored) then new else stored)"

text \<open>A slot holds a node with the given name.\<close>

definition named :: "string \<Rightarrow> slot \<Rightarrow> bool" where
  "named nm s = (case s of Live n \<Rightarrow> name n = nm | _ \<Rightarrow> False)"

text \<open>
  What may happen between two lookups of the name \<open>nm\<close> without concerning it: nodes of
  other names are looked up or created, and slots that do not hold a node of that name are
  deleted.
\<close>

inductive unrelated :: "string \<Rightarrow> Graph \<Rightarrow> Graph \<Rightarrow> bool" for nm :: string where
  u_none: "unrelated nm g g"
| u_create: "unrelated nm g g1 \<Longrightarrow> nm' \<noteq> nm \<Longrightarrow>
     unrelated nm g (snd (getOrCreateNodeIndex g1 nm'))"
| u_delete: "unrelated nm g g1 \<Longrightarrow> j < length (nodes g1) \<Longrightarrow> \<not> named nm (nodes g1 ! j) \<Longrightarrow>
     unrelated nm g (snd (deleteNode g1 j))"

section \<open>Properties\<close>

subsection \<open>Comparing times\<close>

lemma js_less_same [simp]: "\<not> js_less x x"
  by (cases x) simp_all

subsection \<open>The pair key determines the pair\<close>

lemma digit_char_inj: "a < 10 \<Longrightarrow> b < 10 \<Longrightarrow> digit_char a = digit_char b \<Longrightarrow> a = b"
  using nth_eq_iff_index_eq[of "''0123456789''" a b] by (simp add: digit_char_def)

lemma digit_char_not_colon: "d < 10 \<Longrightarrow> digit_char d \<noteq> CHR '':''"
proof -
  assume "d < 10"
  then have "d \<in> {0, 1, 2, 3, 4, 5, 6, 7, 8, 9}" by auto
  then show ?thesis unfolding digit_char_def by auto
qed

lemma num_str_nonempty: "num_str n \<noteq> []"
  by (subst num_str.simps) simp

lemma colon_notin_num_str: "CHR '':'' \<notin> set (num_str n)"
proof (induction n rule: num_str.induct)
  case (1 n)
  show ?case
  proof (cases "n < 10")
    case True
    then have "digit_char n \<noteq> CHR '':''" by (rule digit_char_not_colon)
    then have "CHR '':'' \<notin> set [digit_char n]" by auto
    then show ?thesis using True by (simp add: num_str.simps[of n])
  next
    case False
    then have "CHR '':'' \<notin> set (num_str (n div 10))" using 1 by simp
    moreover have "digit_char (n mod 10) \<noteq> CHR '':''" by (simp add: digit_char_not_colon)
    ultimately show ?thesis using False by (auto simp add: num_str.simps[of n])
  qed
qed

lemma num_str_inj: "num_str m = num_str n \<Longrightarrow> m = n"
proof (induction m arbitrary: n rule: num_str.induct)
  case (1 m)
  show ?case
  proof (cases "m < 10")
    case mT: True
    show ?thesis
    proof (cases "n < 10")
      case True
      with mT 1(2) show ?thesis
        by (simp add: num_str.simps[of m] num_str.simps[of n] digit_char_inj)
    next
      case False
      with mT 1(2) num_str_nonempty[of "n div 10"] show ?thesis
        by (simp add: num_str.simps[of m] num_str.simps[of n] Cons_eq_append_conv)
    qed
  next
    case mF: False
    show ?thesis
    proof (cases "n < 10")
      case True
      with mF 1(2) num_str_nonempty[of "m div 10"] show ?thesis
        by (simp add: num_str.simps[of m] num_str.simps[of n] append_eq_Cons_conv)
    next
      case False
      with mF 1(2) have e1: "num_str (m div 10) = num_str (n div 10)"
        and e2: "digit_char (m mod 10) = digit_char (n mod 10)"
        by (simp_all add: num_str.simps[of m] num_str.simps[of n])
      from 1(1)[OF mF e1] have "m div 10 = n div 10" .
      moreover from e2 have "m mod 10 = n mod 10" by (simp add: digit_char_inj)
      ultimately show ?thesis by (metis div_mult_mod_eq)
    qed
  qed
qed

lemma split_at_sep:
  "c \<notin> set xs \<Longrightarrow> c \<notin> set xs' \<Longrightarrow> xs @ c # ys = xs' @ c # ys' \<Longrightarrow> xs = xs' \<and> ys = ys'"
proof (induction xs arbitrary: xs')
  case Nil
  then show ?case by (cases xs') auto
next
  case (Cons x xs)
  then show ?case by (cases xs') auto
qed

lemma pair_key_inj: "pair_key a b = pair_key a' b' \<longleftrightarrow> a = a' \<and> b = b'"
proof
  assume "pair_key a b = pair_key a' b'"
  then have "num_str a @ CHR '':'' # num_str b = num_str a' @ CHR '':'' # num_str b'"
    by (simp add: pair_key_def)
  from split_at_sep[OF colon_notin_num_str colon_notin_num_str this]
  show "a = a' \<and> b = b'" by (simp add: num_str_inj)
next
  assume "a = a' \<and> b = b'" then show "pair_key a b = pair_key a' b'" by simp
qed

subsection \<open>The invariant is kept by every operation\<close>

lemma live_iff: "live g i \<longleftrightarrow> i < length (nodes g) \<and> (\<exists>n. nodes g ! i = Live n)"
  by (auto simp: live_def slot_at_def split: slot.splits)

lemma adj_add_Some:
  "a < length (adj g) \<Longrightarrow> adj g ! a = Some s \<Longrightarrow>
   adj_add g a b = Some (g\<lparr> adj := (adj g)[a := Some (insert b s)] \<rparr>)"
  by (simp add: adj_add_def adj_at_def)

lemma adj_set_upd:
  "a < length (adj g) \<Longrightarrow>
   adj_set (g\<lparr> adj := (adj g)[a := Some s] \<rparr>) x = (if x = a then s else adj_set g x)"
  by (simp add: adj_set_def adj_at_def)

lemma adj_add_ok:
  assumes "all_sets g" "a < length (adj g)"
  shows "\<exists>g'. adj_add g a b = Some g' \<and> nodes g' = nodes g \<and> edges g' = edges g
           \<and> pairToEdgeIndex g' = pairToEdgeIndex g \<and> length (adj g') = length (adj g)
           \<and> all_sets g' \<and> (\<forall>x. adj_set g' x = (if x = a then insert b (adj_set g a) else adj_set g x))"
proof -
  from assms obtain s where s: "adj g ! a = Some s" by (auto simp: all_sets_def)
  let ?g' = "g\<lparr> adj := (adj g)[a := Some (insert b s)] \<rparr>"
  have "adj_add g a b = Some ?g'" using assms s by (simp add: adj_add_Some)
  moreover have "all_sets ?g'" using assms by (auto simp: all_sets_def nth_list_update)
  moreover have "\<forall>x. adj_set ?g' x = (if x = a then insert b (adj_set g a) else adj_set g x)"
    using assms s by (simp add: adj_set_def adj_at_def)
  ultimately show ?thesis by simp
qed

lemma rebuild_loop_ok:
  assumes "all_sets g"
    and "\<forall>ab \<in> set (map ends rest). fst ab < length (adj g) \<and> snd ab < length (adj g)"
    and "distinct (map key_of (map ends rest))"
  shows "\<exists>g'. rebuild_loop g e rest = (Inr (), g') \<and> nodes g' = nodes g \<and> edges g' = edges g
           \<and> length (adj g') = length (adj g) \<and> all_sets g'
           \<and> (\<forall>x. adj_set g' x = adj_set g x \<union> {y. (x, y) \<in> set (map ends rest) \<or> (y, x) \<in> set (map ends rest)})
           \<and> (\<forall>k p. pairToEdgeIndex g' k = Some p \<longleftrightarrow>
                 (\<exists>q < length rest. key_of (ends (rest ! q)) = k \<and> p = e + q)
                 \<or> ((\<forall>q < length rest. key_of (ends (rest ! q)) \<noteq> k)
                    \<and> pairToEdgeIndex g k = Some p))"
  using assms
proof (induction rest arbitrary: g e)
  case Nil
  then show ?case by simp
next
  case (Cons ed rest)
  obtain a b d where ed: "ed = (a, b, d)" by (cases ed) auto
  let ?g1 = "g\<lparr> pairToEdgeIndex := (pairToEdgeIndex g)(pair_key a b \<mapsto> e) \<rparr>"
  have ab: "a < length (adj g)" "b < length (adj g)" using Cons.prems(2) ed by (auto simp: ends_def)
  have s1: "all_sets ?g1" using Cons.prems(1) by (simp add: all_sets_def)
  from adj_add_ok[OF s1, of a b] ab obtain g2 where g2: "adj_add ?g1 a b = Some g2"
    "nodes g2 = nodes g" "edges g2 = edges g" "pairToEdgeIndex g2 = (pairToEdgeIndex g)(pair_key a b \<mapsto> e)"
    "length (adj g2) = length (adj g)" "all_sets g2"
    "\<forall>x. adj_set g2 x = (if x = a then insert b (adj_set ?g1 a) else adj_set ?g1 x)"
    by auto
  from adj_add_ok[OF g2(6), of b a] ab g2(5) obtain g3 where g3: "adj_add g2 b a = Some g3"
    "nodes g3 = nodes g2" "edges g3 = edges g2" "pairToEdgeIndex g3 = pairToEdgeIndex g2"
    "length (adj g3) = length (adj g2)" "all_sets g3"
    "\<forall>x. adj_set g3 x = (if x = b then insert a (adj_set g2 b) else adj_set g2 x)"
    by auto
  have g1adj: "\<And>x. adj_set ?g1 x = adj_set g x" by (simp add: adj_set_def adj_at_def)
  have step: "rebuild_loop g e (ed # rest) = rebuild_loop g3 (Suc e) rest"
    using g2(1) g3(1) by (simp add: ed)
  have p2: "\<forall>ab \<in> set (map ends rest). fst ab < length (adj g3) \<and> snd ab < length (adj g3)"
    using Cons.prems(2) g3(5) g2(5) by simp
  have p3: "distinct (map key_of (map ends rest))"
    using Cons.prems(3) by simp
  from Cons.IH[OF g3(6) p2 p3, of "Suc e"] obtain g' where g':
    "rebuild_loop g3 (Suc e) rest = (Inr (), g')" "nodes g' = nodes g3" "edges g' = edges g3"
    "length (adj g') = length (adj g3)" "all_sets g'"
    "\<forall>x. adj_set g' x = adj_set g3 x \<union> {y. (x, y) \<in> set (map ends rest) \<or> (y, x) \<in> set (map ends rest)}"
    "\<forall>k p. pairToEdgeIndex g' k = Some p \<longleftrightarrow>
                 (\<exists>q < length rest. key_of (ends (rest ! q)) = k \<and> p = Suc e + q)
                 \<or> ((\<forall>q < length rest. key_of (ends (rest ! q)) \<noteq> k)
                    \<and> pairToEdgeIndex g3 k = Some p)"
    by blast
  have A: "\<forall>x. adj_set g' x = adj_set g x \<union> {y. (x, y) \<in> set (map ends (ed # rest)) \<or> (y, x) \<in> set (map ends (ed # rest))}"
    using g'(6) g3(7) g2(7) g1adj by (auto simp: ed ends_def)
  have fresh: "\<forall>q < length rest. key_of (ends (rest ! q)) \<noteq> pair_key a b"
  proof (intro allI impI)
    fix q assume q: "q < length rest"
    have "pair_key a b \<notin> set (map key_of (map ends rest))"
      using Cons.prems(3) by (simp add: ed ends_def key_of_def)
    moreover have "key_of (ends (rest ! q)) \<in> set (map key_of (map ends rest))"
      using q by (auto simp: in_set_conv_nth intro!: exI[of _ q])
    ultimately show "key_of (ends (rest ! q)) \<noteq> pair_key a b" by metis
  qed
  have P: "\<forall>k p. pairToEdgeIndex g' k = Some p \<longleftrightarrow>
                 (\<exists>q < length (ed # rest). key_of (ends ((ed # rest) ! q)) = k \<and> p = e + q)
                 \<or> ((\<forall>q < length (ed # rest). key_of (ends ((ed # rest) ! q)) \<noteq> k)
                    \<and> pairToEdgeIndex g k = Some p)"
  proof (intro allI)
    fix k p
    let ?K = "\<lambda>q. key_of (ends (rest ! q))"
    have ex: "(\<exists>q < length (ed # rest). key_of (ends ((ed # rest) ! q)) = k \<and> p = e + q)
        \<longleftrightarrow> (pair_key a b = k \<and> p = e) \<or> (\<exists>q < length rest. ?K q = k \<and> p = Suc e + q)"
      (is "?L \<longleftrightarrow> ?R")
    proof
      assume ?L
      then obtain q where q: "q < length (ed # rest)" "key_of (ends ((ed # rest) ! q)) = k" "p = e + q" by blast
      show ?R
      proof (cases q)
        case 0 with q show ?thesis by (simp add: ed ends_def key_of_def)
      next
        case (Suc q') with q show ?thesis by auto
      qed
    next
      assume ?R
      then show ?L
      proof
        assume "pair_key a b = k \<and> p = e"
        then show ?L by (intro exI[of _ 0]) (simp add: ed ends_def key_of_def)
      next
        assume "\<exists>q < length rest. ?K q = k \<and> p = Suc e + q"
        then obtain q where "q < length rest" "?K q = k" "p = Suc e + q" by blast
        then show ?L by (intro exI[of _ "Suc q"]) simp
      qed
    qed
    have al: "(\<forall>q < length (ed # rest). key_of (ends ((ed # rest) ! q)) \<noteq> k)
        \<longleftrightarrow> pair_key a b \<noteq> k \<and> (\<forall>q < length rest. ?K q \<noteq> k)"
      by (auto simp: ed ends_def key_of_def nth_Cons less_Suc_eq_0_disj split: nat.splits)
    have g3p: "pairToEdgeIndex g3 k = (if k = pair_key a b then Some e else pairToEdgeIndex g k)"
      using g3(4) g2(4) by simp
    show "pairToEdgeIndex g' k = Some p \<longleftrightarrow>
                 (\<exists>q < length (ed # rest). key_of (ends ((ed # rest) ! q)) = k \<and> p = e + q)
                 \<or> ((\<forall>q < length (ed # rest). key_of (ends ((ed # rest) ! q)) \<noteq> k)
                    \<and> pairToEdgeIndex g k = Some p)"
      unfolding ex al using g'(7)[rule_format, of k p] g3p fresh by auto
  qed
  show ?case
    using step g'(1,2,3,4,5) g3(2,3,5) g2(2,3,5) A P by simp
qed

lemma rebuildEdgeIndex_ok:
  assumes "\<forall>ab \<in> set (pairs g). fst ab < length (adj g) \<and> snd ab < length (adj g)"
    and "distinct (map key_of (pairs g))"
  shows "\<exists>g'. rebuildEdgeIndex g = (Inr (), g') \<and> nodes g' = nodes g \<and> edges g' = edges g
           \<and> length (adj g') = length (adj g) \<and> all_sets g'
           \<and> (\<forall>x y. y \<in> adj_set g' x \<longleftrightarrow> joined g x y)
           \<and> (\<forall>k p. pairToEdgeIndex g' k = Some p \<longleftrightarrow> p < length (pairs g) \<and> key_of (pairs g ! p) = k)"
proof -
  let ?g0 = "g\<lparr> pairToEdgeIndex := Map.empty, adj := map (\<lambda>_. Some {}) (adj g) \<rparr>"
  have a0: "all_sets ?g0" by (simp add: all_sets_def)
  have b0: "\<forall>ab \<in> set (map ends (edges g)). fst ab < length (adj ?g0) \<and> snd ab < length (adj ?g0)"
    using assms(1) by (simp add: pairs_def)
  have d0: "distinct (map key_of (map ends (edges g)))" using assms(2) by (simp add: pairs_def)
  from rebuild_loop_ok[OF a0 b0 d0, of 0] obtain g' where g':
    "rebuild_loop ?g0 0 (edges g) = (Inr (), g')" "nodes g' = nodes ?g0" "edges g' = edges ?g0"
    "length (adj g') = length (adj ?g0)" "all_sets g'"
    "\<forall>x. adj_set g' x = adj_set ?g0 x \<union> {y. (x, y) \<in> set (map ends (edges g)) \<or> (y, x) \<in> set (map ends (edges g))}"
    "\<forall>k p. pairToEdgeIndex g' k = Some p \<longleftrightarrow>
        (\<exists>q < length (edges g). key_of (ends (edges g ! q)) = k \<and> p = 0 + q)
        \<or> ((\<forall>q < length (edges g). key_of (ends (edges g ! q)) \<noteq> k) \<and> pairToEdgeIndex ?g0 k = Some p)"
    by blast
  have e0: "\<And>x. adj_set ?g0 x = {}" by (simp add: adj_set_def adj_at_def)
  have X: "\<forall>x y. y \<in> adj_set g' x \<longleftrightarrow> joined g x y"
    using g'(6) e0 by (simp add: joined_def pairs_def)
  have P: "\<forall>k p. pairToEdgeIndex g' k = Some p \<longleftrightarrow> p < length (pairs g) \<and> key_of (pairs g ! p) = k"
    using g'(7) by (auto simp: pairs_def)
  show ?thesis using g'(1,2,3,4,5) X P by (simp add: rebuildEdgeIndex_def)
qed

lemma js_set_length: "length (js_set h xs i v) = max (length xs) (Suc i)"
  by (auto simp: js_set_def)

lemma js_set_nth_other: "x \<noteq> i \<Longrightarrow> x < length xs \<Longrightarrow> js_set h xs i v ! x = xs ! x"
  by (auto simp: js_set_def nth_append)

lemma js_set_nth_same: "js_set h xs i v ! i = v"
  by (auto simp: js_set_def nth_append)

lemma inv_distinct_keys: "inv g \<Longrightarrow> distinct (map key_of (pairs g))"
proof -
  assume i: "inv g"
  then have P: "\<And>k p. pairToEdgeIndex g k = Some p \<longleftrightarrow> p < length (pairs g) \<and> key_of (pairs g ! p) = k"
    by (simp add: inv_def)
  show ?thesis
  proof (subst distinct_conv_nth, intro allI impI)
    fix p q assume pq: "p < length (map key_of (pairs g))" "q < length (map key_of (pairs g))" "p \<noteq> q"
    show "map key_of (pairs g) ! p \<noteq> map key_of (pairs g) ! q"
    proof
      assume "map key_of (pairs g) ! p = map key_of (pairs g) ! q"
      then have e: "key_of (pairs g ! p) = key_of (pairs g ! q)" using pq by simp
      have "pairToEdgeIndex g (key_of (pairs g ! q)) = Some p" using P pq e by simp
      moreover have "pairToEdgeIndex g (key_of (pairs g ! q)) = Some q" using P pq by simp
      ultimately show False using pq(3) by simp
    qed
  qed
qed

lemma incident_ends: "incident i e \<longleftrightarrow> fst (ends e) = i \<or> snd (ends e) = i"
  by (simp add: incident_def ends_def)

lemma deleteNode_live:
  assumes "inv g" "slot_at g i \<noteq> Free"
  shows "\<exists>g'. deleteNode g i = (Inr (map ends (filter (incident i) (edges g))), g')
           \<and> nodes g' = js_set Hole (nodes g) i Free
           \<and> edges g' = filter (\<lambda>e. \<not> incident i e) (edges g)
           \<and> inv g'"
proof -
  let ?kept = "filter (\<lambda>e. \<not> incident i e) (edges g)"
  let ?g2 = "g\<lparr> nodes := js_set Hole (nodes g) i Free, adj := js_set None (adj g) i (Some {}),
                edges := ?kept \<rparr>"
  have len: "length (adj g) = length (nodes g)" using assms(1) by (simp add: inv_def)
  have E: "\<forall>ab \<in> set (pairs g). fst ab \<le> snd ab \<and> live g (fst ab) \<and> live g (snd ab)"
    using assms(1) by (simp add: inv_def)
  have pk: "pairs ?g2 = filter (\<lambda>ab. \<not> (fst ab = i \<or> snd ab = i)) (pairs g)"
    by (simp add: pairs_def filter_map comp_def incident_ends)
  have b: "\<forall>ab \<in> set (pairs ?g2). fst ab < length (adj ?g2) \<and> snd ab < length (adj ?g2)"
    using E len by (auto simp: pk live_iff js_set_length)
  have d: "distinct (map key_of (pairs ?g2))"
    unfolding pk using inv_distinct_keys[OF assms(1)] by (rule distinct_map_filter)
  from rebuildEdgeIndex_ok[OF b d] obtain g' where g':
    "rebuildEdgeIndex ?g2 = (Inr (), g')" "nodes g' = nodes ?g2" "edges g' = edges ?g2"
    "length (adj g') = length (adj ?g2)" "all_sets g'"
    "\<forall>x y. y \<in> adj_set g' x \<longleftrightarrow> joined ?g2 x y"
    "\<forall>k p. pairToEdgeIndex g' k = Some p \<longleftrightarrow> p < length (pairs ?g2) \<and> key_of (pairs ?g2 ! p) = k"
    by blast
  have pg': "pairs g' = pairs ?g2" using g'(3) by (simp add: pairs_def)
  have res: "deleteNode g i = (Inr (map ends (filter (incident i) (edges g))), g')"
    using assms(2) g'(1) by (simp add: deleteNode_def Let_def ends_def)
  have lv: "\<And>x. x \<noteq> i \<Longrightarrow> live g x \<Longrightarrow> live g' x"
    using g'(2) by (auto simp: live_iff js_set_length js_set_nth_other)
  have "inv g'"
    unfolding inv_def
  proof (intro conjI)
    show "length (adj g') = length (nodes g')" using g'(2,4) len by (simp add: js_set_length)
    show "all_sets g'" by (rule g'(5))
    show "\<forall>ab \<in> set (pairs g'). fst ab \<le> snd ab \<and> live g' (fst ab) \<and> live g' (snd ab)"
      unfolding pg' pk using E lv by auto
    show "\<forall>k p. pairToEdgeIndex g' k = Some p \<longleftrightarrow> p < length (pairs g') \<and> key_of (pairs g' ! p) = k"
      unfolding pg' by (rule g'(7))
    show "\<forall>x y. y \<in> adj_set g' x \<longleftrightarrow> joined g' x y"
      using g'(6) pg' by (simp add: joined_def)
  qed
  then show ?thesis using res g'(2,3) by simp
qed

lemma find_free_Some:
  "find_free ss k = Some idx \<Longrightarrow> k \<le> idx \<and> idx - k < length ss \<and> ss ! (idx - k) = Free
     \<and> (\<forall>m < idx - k. ss ! m \<noteq> Free)"
proof (induction ss arbitrary: k)
  case Nil then show ?case by simp
next
  case (Cons s ss)
  show ?case
  proof (cases "s = Free")
    case True with Cons.prems show ?thesis by simp
  next
    case False
    with Cons.prems have "find_free ss (Suc k) = Some idx" by simp
    from Cons.IH[OF this] have *: "Suc k \<le> idx" "idx - Suc k < length ss"
      "ss ! (idx - Suc k) = Free" "\<forall>m < idx - Suc k. ss ! m \<noteq> Free" by auto
    have e: "idx - k = Suc (idx - Suc k)" using * by simp
    show ?thesis using * False unfolding e by (auto simp: nth_Cons split: nat.splits)
  qed
qed

lemma find_free_None: "find_free ss k = None \<Longrightarrow> Free \<notin> set ss"
  by (induction ss arbitrary: k) (auto split: if_splits)

lemma find_free_0: "find_free ss 0 = Some idx \<Longrightarrow> idx < length ss \<and> ss ! idx = Free \<and> (\<forall>m < idx. ss ! m \<noteq> Free)"
  using find_free_Some[of ss 0 idx] by simp

lemma inv_edge_live: "inv g \<Longrightarrow> joined g x y \<Longrightarrow> live g x \<and> live g y"
  by (auto simp: inv_def joined_def)

lemma getOrCreate_reuse_inv:
  assumes "inv g" "idx < length (nodes g)" "nodes g ! idx = Free"
  shows "inv (g\<lparr> nodes := (nodes g)[idx := Live nd], adj := js_set None (adj g) idx (Some {}) \<rparr>)"
    (is "inv ?g'")
proof -
  have len: "length (adj g) = length (nodes g)" and as: "all_sets g"
    and E: "\<forall>ab \<in> set (pairs g). fst ab \<le> snd ab \<and> live g (fst ab) \<and> live g (snd ab)"
    and P: "\<forall>k p. pairToEdgeIndex g k = Some p \<longleftrightarrow> p < length (pairs g) \<and> key_of (pairs g ! p) = k"
    and X: "\<forall>x y. y \<in> adj_set g x \<longleftrightarrow> joined g x y"
    using assms(1) by (simp_all add: inv_def)
  have nl: "\<not> live g idx" using assms(3) by (simp add: live_iff)
  have adj': "adj ?g' = (adj g)[idx := Some {}]" using assms(2) len by (simp add: js_set_def)
  have pg: "pairs ?g' = pairs g" by (simp add: pairs_def)
  have lv: "live ?g' x" if "live g x" for x
    using that by (cases "x = idx") (auto simp: live_iff)
  have nj: "\<And>y. \<not> joined g idx y" using inv_edge_live[OF assms(1)] nl by blast
  show ?thesis unfolding inv_def
  proof (intro conjI)
    show "length (adj ?g') = length (nodes ?g')" using len adj' by simp
    show "all_sets ?g'" using as adj' assms(2) len by (auto simp: all_sets_def nth_list_update)
    show "\<forall>ab \<in> set (pairs ?g'). fst ab \<le> snd ab \<and> live ?g' (fst ab) \<and> live ?g' (snd ab)"
      unfolding pg using E lv by blast
    show "\<forall>k p. pairToEdgeIndex ?g' k = Some p \<longleftrightarrow> p < length (pairs ?g') \<and> key_of (pairs ?g' ! p) = k"
      unfolding pg using P by simp
    show "\<forall>x y. y \<in> adj_set ?g' x \<longleftrightarrow> joined ?g' x y"
    proof (intro allI)
      fix x y
      have j: "joined ?g' x y = joined g x y" by (simp add: joined_def pairs_def)
      show "y \<in> adj_set ?g' x \<longleftrightarrow> joined ?g' x y"
      proof (cases "x = idx")
        case True
        then have "adj_set ?g' x = {}" using assms(2) len adj' by (simp add: adj_set_def adj_at_def)
        then show ?thesis using nj True j by simp
      next
        case False
        then have "adj_set ?g' x = adj_set g x" using adj' by (simp add: adj_set_def adj_at_def)
        then show ?thesis using X j by simp
      qed
    qed
  qed
qed

lemma getOrCreate_append_inv:
  assumes "inv g"
  shows "inv (g\<lparr> nodes := nodes g @ [Live nd], adj := adj g @ [Some {}] \<rparr>)" (is "inv ?g'")
proof -
  have len: "length (adj g) = length (nodes g)" and as: "all_sets g"
    and E: "\<forall>ab \<in> set (pairs g). fst ab \<le> snd ab \<and> live g (fst ab) \<and> live g (snd ab)"
    and P: "\<forall>k p. pairToEdgeIndex g k = Some p \<longleftrightarrow> p < length (pairs g) \<and> key_of (pairs g ! p) = k"
    and X: "\<forall>x y. y \<in> adj_set g x \<longleftrightarrow> joined g x y"
    using assms(1) by (simp_all add: inv_def)
  have pg: "pairs ?g' = pairs g" by (simp add: pairs_def)
  have lv: "\<And>x. live g x \<Longrightarrow> live ?g' x" by (auto simp: live_iff nth_append)
  have nj: "\<And>y. \<not> joined g (length (nodes g)) y" using inv_edge_live[OF assms(1)] by (auto simp: live_iff)
  show ?thesis unfolding inv_def
  proof (intro conjI)
    show "length (adj ?g') = length (nodes ?g')" using len by simp
    show "all_sets ?g'" using as by (auto simp: all_sets_def nth_append)
    show "\<forall>ab \<in> set (pairs ?g'). fst ab \<le> snd ab \<and> live ?g' (fst ab) \<and> live ?g' (snd ab)"
      unfolding pg using E lv by blast
    show "\<forall>k p. pairToEdgeIndex ?g' k = Some p \<longleftrightarrow> p < length (pairs ?g') \<and> key_of (pairs ?g' ! p) = k"
      unfolding pg using P by simp
    show "\<forall>x y. y \<in> adj_set ?g' x \<longleftrightarrow> joined ?g' x y"
    proof (intro allI)
      fix x y
      have j: "joined ?g' x y = joined g x y" by (simp add: joined_def pairs_def)
      show "y \<in> adj_set ?g' x \<longleftrightarrow> joined ?g' x y"
      proof (cases "x < length (adj g)")
        case True
        then have "adj_set ?g' x = adj_set g x" by (simp add: adj_set_def adj_at_def nth_append)
        then show ?thesis using X j by simp
      next
        case False
        then have "adj_set ?g' x = {}" by (auto simp: adj_set_def adj_at_def nth_append)
        moreover have "\<not> joined g x y" using inv_edge_live[OF assms(1), of x y] False len by (auto simp: live_iff)
        ultimately show ?thesis using j by simp
      qed
    qed
  qed
qed

lemma getOrCreate_inv:
  assumes "inv g"
  shows "inv (snd (getOrCreateNodeIndex g nm))"
proof (cases "find_name (nodes g) nm 0")
  case (Inl e)
  then show ?thesis using assms by (simp add: getOrCreateNodeIndex_def)
next
  case (Inr r)
  show ?thesis
  proof (cases r)
    case (Some idx)
    then show ?thesis using assms Inr by (simp add: getOrCreateNodeIndex_def)
  next
    case None
    show ?thesis
    proof (cases "find_free (nodes g) 0")
      case N: None
      then show ?thesis using Inr None getOrCreate_append_inv[OF assms]
        by (simp add: getOrCreateNodeIndex_def)
    next
      case (Some idx)
      from find_free_0[OF this] have "idx < length (nodes g)" "nodes g ! idx = Free" by auto
      from getOrCreate_reuse_inv[OF assms this] show ?thesis using Inr None Some
        by (simp add: getOrCreateNodeIndex_def)
    qed
  qed
qed

lemma key_of_ends_eq: "key_of ab = pair_key a b \<longleftrightarrow> ab = (a, b)"
  by (cases ab) (simp add: key_of_def pair_key_inj)

lemma inv_lookup:
  "inv g \<Longrightarrow> pairToEdgeIndex g (pair_key a b) = Some p \<longleftrightarrow> p < length (edges g) \<and> ends (edges g ! p) = (a, b)"
  by (auto simp: inv_def pairs_def key_of_ends_eq)

lemma inv_lookup_None:
  "inv g \<Longrightarrow> pairToEdgeIndex g (pair_key a b) = None \<longleftrightarrow> (a, b) \<notin> set (pairs g)"
proof -
  assume i: "inv g"
  have "(a, b) \<in> set (pairs g) \<longleftrightarrow> (\<exists>p < length (pairs g). pairs g ! p = (a, b))"
    by (rule in_set_conv_nth)
  also have "\<dots> \<longleftrightarrow> (\<exists>p. p < length (edges g) \<and> ends (edges g ! p) = (a, b))"
    by (auto simp: pairs_def)
  also have "\<dots> \<longleftrightarrow> (\<exists>p. pairToEdgeIndex g (pair_key a b) = Some p)"
    using inv_lookup[OF i] by simp
  finally show ?thesis by auto
qed

lemma addOrUpdateEdge_existing:
  assumes "inv g" "a = (if i < j then i else j)" "b = (if i < j then j else i)"
    and "pairToEdgeIndex g (pair_key a b) = Some p"
  shows "p < length (edges g) \<and> ends (edges g ! p) = (a, b)
         \<and> addOrUpdateEdge g i j d =
             (Inr (), g\<lparr> edges := (edges g)[p := (a, b, earliest (snd (snd (edges g ! p))) d)] \<rparr>)"
proof -
  from inv_lookup[OF assms(1)] assms(4) have p: "p < length (edges g)" "ends (edges g ! p) = (a, b)"
    by auto
  obtain ed where e: "edges g ! p = (a, b, ed)" using p(2) by (cases "edges g ! p") (auto simp: ends_def)
  have same: "g\<lparr> edges := (edges g)[p := (a, b, ed)] \<rparr> = g" using e[symmetric] by simp
  have "addOrUpdateEdge g i j d = (Inr (), g\<lparr> edges := (edges g)[p := (a, b, earliest ed d)] \<rparr>)"
    unfolding addOrUpdateEdge_def Let_def assms(2)[symmetric] assms(3)[symmetric]
    using assms(4) p(1) e same by (simp add: earliest_def)
  then show ?thesis using p e by simp
qed

lemma addOrUpdateEdge_new:
  assumes "inv g" "a = (if i < j then i else j)" "b = (if i < j then j else i)"
    and "live g i" "live g j"
    and "pairToEdgeIndex g (pair_key a b) = None"
  shows "\<exists>g'. addOrUpdateEdge g i j d = (Inr (), g') \<and> nodes g' = nodes g
           \<and> edges g' = edges g @ [(a, b, d)]
           \<and> pairToEdgeIndex g' = (pairToEdgeIndex g)(pair_key a b \<mapsto> length (edges g))
           \<and> length (adj g') = length (adj g) \<and> all_sets g'
           \<and> (\<forall>x. adj_set g' x = adj_set g x \<union> (if x = a then {b} else {}) \<union> (if x = b then {a} else {}))"
proof -
  have len: "length (adj g) = length (nodes g)" and as: "all_sets g"
    using assms(1) by (simp_all add: inv_def)
  have ab: "a < length (adj g)" "b < length (adj g)" using assms(2,3,4,5) len by (auto simp: live_iff)
  let ?g2 = "g\<lparr> edges := edges g @ [(a, b, d)],
                pairToEdgeIndex := (pairToEdgeIndex g)(pair_key a b \<mapsto> length (edges g)) \<rparr>"
  have s2: "all_sets ?g2" using as by (simp add: all_sets_def)
  have a2: "\<And>x. adj_set ?g2 x = adj_set g x" by (simp add: adj_set_def adj_at_def)
  from adj_add_ok[OF s2, of a b] ab obtain g3 where g3: "adj_add ?g2 a b = Some g3"
    "nodes g3 = nodes ?g2" "edges g3 = edges ?g2" "pairToEdgeIndex g3 = pairToEdgeIndex ?g2"
    "length (adj g3) = length (adj ?g2)" "all_sets g3"
    "\<forall>x. adj_set g3 x = (if x = a then insert b (adj_set ?g2 a) else adj_set ?g2 x)"
    by auto
  from adj_add_ok[OF g3(6), of b a] ab g3(5) obtain g4 where g4: "adj_add g3 b a = Some g4"
    "nodes g4 = nodes g3" "edges g4 = edges g3" "pairToEdgeIndex g4 = pairToEdgeIndex g3"
    "length (adj g4) = length (adj g3)" "all_sets g4"
    "\<forall>x. adj_set g4 x = (if x = b then insert a (adj_set g3 b) else adj_set g3 x)"
    by auto
  have "addOrUpdateEdge g i j d = (Inr (), g4)"
    unfolding addOrUpdateEdge_def Let_def assms(2)[symmetric] assms(3)[symmetric]
    using assms(6) g3(1) g4(1) by simp
  moreover have "\<forall>x. adj_set g4 x = adj_set g x \<union> (if x = a then {b} else {}) \<union> (if x = b then {a} else {})"
    using g4(7) g3(7) a2 by auto
  ultimately show ?thesis using g3 g4 by simp
qed

lemma inv_cong:
  assumes "length (nodes g') = length (nodes g)" "\<And>x. live g' x = live g x"
    "adj g' = adj g" "pairToEdgeIndex g' = pairToEdgeIndex g" "pairs g' = pairs g"
  shows "inv g' = inv g"
  unfolding inv_def all_sets_def joined_def adj_set_def adj_at_def assms by (rule refl)

lemma inv_set_date:
  assumes "inv g" "p < length (edges g)" "ends (edges g ! p) = (a, b)"
  shows "inv (g\<lparr> edges := (edges g)[p := (a, b, d')] \<rparr>)" (is "inv ?g'")
proof -
  have "map ends ((edges g)[p := (a, b, d')]) = map ends (edges g)"
    using assms(2,3) by (simp add: map_update ends_def list_update_same_conv)
  then have pg: "pairs ?g' = pairs g" by (simp add: pairs_def)
  have lv: "\<And>x. live ?g' x = live g x" by (simp add: live_def slot_at_def)
  have "inv ?g' = inv g" by (rule inv_cong) (simp_all add: pg lv)
  then show ?thesis using assms(1) by simp
qed

lemma addOrUpdateEdge_inv:
  assumes "inv g" "live g i" "live g j"
  shows "fst (addOrUpdateEdge g i j d) = Inr () \<and> inv (snd (addOrUpdateEdge g i j d))
         \<and> nodes (snd (addOrUpdateEdge g i j d)) = nodes g"
proof -
  define a where "a = (if i < j then i else j)"
  define b where "b = (if i < j then j else i)"
  have le: "a \<le> b" by (simp add: a_def b_def)
  have lab: "live g a" "live g b" using assms(2,3) by (simp_all add: a_def b_def)
  show ?thesis
  proof (cases "pairToEdgeIndex g (pair_key a b)")
    case (Some p)
    from addOrUpdateEdge_existing[OF assms(1) a_def b_def Some, of d]
    show ?thesis using inv_set_date[OF assms(1)] by simp
  next
    case None
    from addOrUpdateEdge_new[OF assms(1) a_def b_def assms(2,3) None, of d]
    obtain g' where g': "addOrUpdateEdge g i j d = (Inr (), g')" "nodes g' = nodes g"
      "edges g' = edges g @ [(a, b, d)]"
      "pairToEdgeIndex g' = (pairToEdgeIndex g)(pair_key a b \<mapsto> length (edges g))"
      "length (adj g') = length (adj g)" "all_sets g'"
      "\<forall>x. adj_set g' x = adj_set g x \<union> (if x = a then {b} else {}) \<union> (if x = b then {a} else {})"
      by blast
    have len: "length (adj g) = length (nodes g)"
      and E: "\<forall>ab \<in> set (pairs g). fst ab \<le> snd ab \<and> live g (fst ab) \<and> live g (snd ab)"
      and P: "\<forall>k p. pairToEdgeIndex g k = Some p \<longleftrightarrow> p < length (pairs g) \<and> key_of (pairs g ! p) = k"
      and X: "\<forall>x y. y \<in> adj_set g x \<longleftrightarrow> joined g x y"
      using assms(1) by (simp_all add: inv_def)
    have pg: "pairs g' = pairs g @ [(a, b)]" using g'(3) by (simp add: pairs_def ends_def)
    have lv: "\<And>x. live g' x = live g x" using g'(2) by (simp add: live_def slot_at_def)
    have nokey: "key_of (pairs g ! p) \<noteq> pair_key a b" if "p < length (pairs g)" for p
      using P[rule_format, of "pair_key a b" p] None that by auto
    have "inv g'" unfolding inv_def
    proof (intro conjI)
      show "length (adj g') = length (nodes g')" using g'(2,5) len by simp
      show "all_sets g'" by (rule g'(6))
      show "\<forall>ab \<in> set (pairs g'). fst ab \<le> snd ab \<and> live g' (fst ab) \<and> live g' (snd ab)"
        unfolding pg lv using E le lab by auto
      show "\<forall>k p. pairToEdgeIndex g' k = Some p \<longleftrightarrow> p < length (pairs g') \<and> key_of (pairs g' ! p) = k"
      proof (intro allI)
        fix k p
        have lp: "length (pairs g) = length (edges g)" by (simp add: pairs_def)
        show "pairToEdgeIndex g' k = Some p \<longleftrightarrow> p < length (pairs g') \<and> key_of (pairs g' ! p) = k"
        proof (cases "p < length (pairs g)")
          case True
          then show ?thesis using nokey[OF True] P[rule_format, of k p] g'(4) lp
            by (auto simp: pg nth_append)
        next
          case False
          then show ?thesis using P[rule_format, of k p] g'(4) lp
            by (auto simp: pg nth_append key_of_def less_Suc_eq)
        qed
      qed
      show "\<forall>x y. y \<in> adj_set g' x \<longleftrightarrow> joined g' x y"
        using g'(7) X by (auto simp: joined_def pg)
    qed
    then show ?thesis using g'(1,2) by simp
  qed
qed

lemma renameNode_inv: "inv g \<Longrightarrow> inv (snd (renameNode g i nm))"
proof -
  assume i: "inv g"
  show ?thesis
  proof (cases "slot_at g i")
    case (Live n)
    let ?g' = "g\<lparr> nodes := (nodes g)[i := Live (n\<lparr> name := nm \<rparr>)] \<rparr>"
    have il: "i < length (nodes g)" "nodes g ! i = Live n" using Live by (auto simp: slot_at_def split: if_splits)
    have lv: "live ?g' x = live g x" for x using il by (cases "x = i") (auto simp: live_iff)
    have "inv ?g' = inv g" by (rule inv_cong) (simp_all add: lv pairs_def)
    then have "inv ?g'" using i by simp
    then show ?thesis using Live by (simp add: renameNode_def)
  qed (simp_all add: renameNode_def i)
qed

lemma find_name_Some:
  "find_name ss nm k = Inr (Some idx) \<Longrightarrow>
     k \<le> idx \<and> idx - k < length ss \<and> (\<exists>n. ss ! (idx - k) = Live n \<and> name n = nm)
     \<and> (\<forall>m < idx - k. \<forall>n. ss ! m = Live n \<longrightarrow> name n \<noteq> nm)"
proof (induction ss nm k rule: find_name.induct)
  case (1 nm idx)
  then show ?case by simp
next
  case (2 ss nm idx)
  then show ?case by simp
next
  case (3 ss nm k)
  then have *: "Suc k \<le> idx" "idx - Suc k < length ss"
    "\<exists>n. ss ! (idx - Suc k) = Live n \<and> name n = nm"
    "\<forall>m < idx - Suc k. \<forall>n. ss ! m = Live n \<longrightarrow> name n \<noteq> nm" by auto
  have e: "idx - k = Suc (idx - Suc k)" using * by simp
  show ?case using * unfolding e by (auto simp: nth_Cons split: nat.splits)
next
  case (4 n ss nm k)
  show ?case
  proof (cases "name n = nm")
    case True
    with 4(2) show ?thesis by simp
  next
    case False
    with 4 have *: "Suc k \<le> idx" "idx - Suc k < length ss"
      "\<exists>n. ss ! (idx - Suc k) = Live n \<and> name n = nm"
      "\<forall>m < idx - Suc k. \<forall>n. ss ! m = Live n \<longrightarrow> name n \<noteq> nm" by auto
    have e: "idx - k = Suc (idx - Suc k)" using * by simp
    show ?thesis using * False unfolding e by (auto simp: nth_Cons split: nat.splits)
  qed
qed

lemma getOrCreate_live:
  "getOrCreateNodeIndex g nm = (Inr idx, g') \<Longrightarrow> live g' idx"
proof -
  assume r: "getOrCreateNodeIndex g nm = (Inr idx, g')"
  show ?thesis
  proof (cases "find_name (nodes g) nm 0")
    case (Inl e)
    with r show ?thesis by (simp add: getOrCreateNodeIndex_def)
  next
    case (Inr o1)
    show ?thesis
    proof (cases o1)
      case (Some k)
      with r Inr have "idx = k" "g' = g" by (auto simp: getOrCreateNodeIndex_def)
      with find_name_Some[of "nodes g" nm 0 k] Inr Some show ?thesis by (auto simp: live_iff)
    next
      case None
      show ?thesis
      proof (cases "find_free (nodes g) 0")
        case N: None
        with r Inr None show ?thesis by (auto simp: getOrCreateNodeIndex_def live_iff)
      next
        case (Some k)
        from find_free_0[OF this] have "k < length (nodes g)" by simp
        with r Inr None Some show ?thesis by (auto simp: getOrCreateNodeIndex_def live_iff)
      qed
    qed
  qed
qed

lemma getOrCreate_keeps_live:
  "live g x \<Longrightarrow> live (snd (getOrCreateNodeIndex g nm)) x"
proof -
  assume l: "live g x"
  show ?thesis
  proof (cases "find_name (nodes g) nm 0")
    case (Inl e)
    with l show ?thesis by (simp add: getOrCreateNodeIndex_def)
  next
    case (Inr o1)
    show ?thesis
    proof (cases o1)
      case (Some k)
      with l Inr show ?thesis by (simp add: getOrCreateNodeIndex_def)
    next
      case None
      show ?thesis
      proof (cases "find_free (nodes g) 0")
        case N: None
        with l Inr None show ?thesis by (auto simp: getOrCreateNodeIndex_def live_iff nth_append)
      next
        case (Some k)
        from find_free_0[OF this] have "k < length (nodes g)" "nodes g ! k = Free" by auto
        then have "x \<noteq> k" using l by (auto simp: live_iff)
        with l Inr None Some show ?thesis by (auto simp: getOrCreateNodeIndex_def live_iff)
      qed
    qed
  qed
qed

lemma resolve_names_inv:
  "inv g \<Longrightarrow> inv (snd (resolve_names g names))
     \<and> (\<forall>x. live g x \<longrightarrow> live (snd (resolve_names g names)) x)
     \<and> (\<forall>idxs. fst (resolve_names g names) = Inr idxs \<longrightarrow>
          (\<forall>i \<in> set idxs. live (snd (resolve_names g names)) i))"
proof (induction names arbitrary: g)
  case Nil
  then show ?case by simp
next
  case (Cons nm nms)
  obtain r g1 where r: "getOrCreateNodeIndex g nm = (r, g1)" by (cases "getOrCreateNodeIndex g nm")
  have i1: "inv g1" using getOrCreate_inv[OF Cons.prems, of nm] r by simp
  have k1: "\<And>x. live g x \<Longrightarrow> live g1 x" using getOrCreate_keeps_live[of g _ nm] r by simp
  show ?case
  proof (cases r)
    case (Inl e)
    then show ?thesis using r i1 k1 by simp
  next
    case (Inr idx)
    have l1: "live g1 idx" using getOrCreate_live r Inr by simp
    obtain r2 g2 where r2: "resolve_names g1 nms = (r2, g2)" by (cases "resolve_names g1 nms")
    from Cons.IH[OF i1] r2 have ih: "inv g2" "\<And>x. live g1 x \<Longrightarrow> live g2 x"
      "\<And>idxs. r2 = Inr idxs \<Longrightarrow> \<forall>i \<in> set idxs. live g2 i" by auto
    show ?thesis
    proof (cases r2)
      case (Inl e)
      then show ?thesis using r Inr r2 ih k1 by simp
    next
      case R: (Inr idxs)
      then show ?thesis using r Inr r2 ih k1 l1 by simp
    qed
  qed
qed

lemma add_edges_from_inv:
  "inv g \<Longrightarrow> live g x \<Longrightarrow> \<forall>y \<in> set ys. live g y \<Longrightarrow>
     fst (add_edges_from g x ys d) = Inr () \<and> inv (snd (add_edges_from g x ys d))
     \<and> nodes (snd (add_edges_from g x ys d)) = nodes g"
proof (induction ys arbitrary: g)
  case Nil
  then show ?case by simp
next
  case (Cons y ys)
  obtain r g1 where r: "addOrUpdateEdge g x y d = (r, g1)" by (cases "addOrUpdateEdge g x y d")
  from addOrUpdateEdge_inv[OF Cons.prems(1,2), of y d] Cons.prems(3) r
  have s: "r = Inr ()" "inv g1" "nodes g1 = nodes g" by auto
  have lv: "\<And>z. live g1 z = live g z" using s(3) by (simp add: live_def slot_at_def)
  from Cons.IH[OF s(2), unfolded lv, OF Cons.prems(2)] Cons.prems(3)
  show ?case using r s by simp
qed

lemma add_all_pairs_inv:
  "inv g \<Longrightarrow> \<forall>y \<in> set xs. live g y \<Longrightarrow>
     fst (add_all_pairs g xs d) = Inr () \<and> inv (snd (add_all_pairs g xs d))
     \<and> nodes (snd (add_all_pairs g xs d)) = nodes g"
proof (induction xs arbitrary: g)
  case Nil
  then show ?case by simp
next
  case (Cons x xs)
  obtain r g1 where r: "add_edges_from g x xs d = (r, g1)" by (cases "add_edges_from g x xs d")
  from add_edges_from_inv[OF Cons.prems(1), of x xs d] Cons.prems(2) r
  have s: "r = Inr ()" "inv g1" "nodes g1 = nodes g" by auto
  have lv: "\<And>z. live g1 z = live g z" using s(3) by (simp add: live_def slot_at_def)
  from Cons.IH[OF s(2), unfolded lv] Cons.prems(2)
  show ?case using r s by simp
qed

lemma addFriendGroup_inv: "inv g \<Longrightarrow> inv (snd (addFriendGroup g names d))"
proof -
  assume i: "inv g"
  obtain r g1 where r: "resolve_names g names = (r, g1)" by (cases "resolve_names g names")
  from resolve_names_inv[OF i, of names] r have s: "inv g1"
    "\<And>idxs. r = Inr idxs \<Longrightarrow> \<forall>i \<in> set idxs. live g1 i" by auto
  show ?thesis
  proof (cases r)
    case (Inl e)
    then show ?thesis using r s(1) by (simp add: addFriendGroup_def)
  next
    case (Inr idxs)
    from add_all_pairs_inv[OF s(1) s(2)[OF Inr], of d] show ?thesis
      using r Inr by (simp add: addFriendGroup_def)
  qed
qed

lemma center_loop_no_hole:
  "center_loop g ks F = Inr F' \<Longrightarrow> \<forall>k \<in> set ks. slot_at g k \<noteq> Hole"
  by (induction ks arbitrary: F) (auto split: slot.splits)

lemma move_loop_props:
  "\<forall>m \<in> set ms. slot_at g m \<noteq> Hole \<Longrightarrow>
    \<exists>g'. move_loop g dt F ms = (Inr (), g') \<and> edges g' = edges g \<and> adj g' = adj g
      \<and> pairToEdgeIndex g' = pairToEdgeIndex g \<and> length (nodes g') = length (nodes g)
      \<and> (\<forall>x. live g' x = live g x)
      \<and> (\<forall>x. (slot_at g' x = Free) = (slot_at g x = Free))
      \<and> (\<forall>x. (slot_at g' x = Hole) = (slot_at g x = Hole))"
proof (induction ms arbitrary: g)
  case Nil
  then show ?case by simp
next
  case (Cons m ms)
  show ?case
  proof (cases "slot_at g m")
    case Hole
    with Cons.prems show ?thesis by simp
  next
    case Free
    with Cons.IH[of g] Cons.prems show ?thesis by simp
  next
    case (Live nm)
    let ?g1 = "g\<lparr> nodes := (nodes g)[m := Live (nm\<lparr> pos := vec2_add (pos nm) (vec2_mul (F ! m) dt) \<rparr>)] \<rparr>"
    have ml: "m < length (nodes g)" "nodes g ! m = Live nm"
      using Live by (auto simp: slot_at_def split: if_splits)
    have k: "slot_at ?g1 x = Free \<longleftrightarrow> slot_at g x = Free"
      "slot_at ?g1 x = Hole \<longleftrightarrow> slot_at g x = Hole"
      "live ?g1 x = live g x" for x
      using ml by (cases "x = m"; auto simp: live_def slot_at_def)+
    have "\<forall>m \<in> set ms. slot_at ?g1 m \<noteq> Hole" using Cons.prems k by simp
    from Cons.IH[OF this] show ?thesis using Live k by auto
  qed
qed

lemma update_frame:
  "edges (snd (update g t)) = edges g \<and> adj (snd (update g t)) = adj g
     \<and> pairToEdgeIndex (snd (update g t)) = pairToEdgeIndex g
     \<and> length (nodes (snd (update g t))) = length (nodes g)
     \<and> (\<forall>x. live (snd (update g t)) x = live g x)
     \<and> (fst (update g t) \<noteq> Inr () \<longrightarrow> snd (update g t) = g)"
proof (cases "length (nodes g) = 0")
  case True
  then show ?thesis by (simp add: update_def)
next
  case False
  let ?n = "length (nodes g)"
  show ?thesis
  proof (cases "outer_loop g ?n [0..<?n] (replicate ?n (vec2 0 0))")
    case (Inl e)
    then show ?thesis using False by (simp add: update_def Let_def)
  next
    case (Inr F1)
    show ?thesis
    proof (cases "center_loop g [0..<?n] F1")
      case (Inl e)
      then show ?thesis using False Inr by (simp add: update_def Let_def)
    next
      case R: (Inr F2)
      from center_loop_no_hole[OF R] have "\<forall>m \<in> set [0..<?n]. slot_at g m \<noteq> Hole" .
      from move_loop_props[OF this, of t F2] obtain g' where
        "move_loop g t F2 [0..<?n] = (Inr (), g')" "edges g' = edges g" "adj g' = adj g"
        "pairToEdgeIndex g' = pairToEdgeIndex g" "length (nodes g') = length (nodes g)"
        "\<forall>x. live g' x = live g x" by blast
      then show ?thesis using False Inr R by (simp add: update_def Let_def)
    qed
  qed
qed

lemma update_inv: "inv g \<Longrightarrow> inv (snd (update g t))"
proof -
  assume i: "inv g"
  have "inv (snd (update g t)) = inv g"
    using update_frame[of g t] by (intro inv_cong) (simp_all add: pairs_def)
  then show ?thesis using i by simp
qed

lemma deleteNode_inv: "inv g \<Longrightarrow> inv (snd (deleteNode g i))"
proof (cases "slot_at g i = Free")
  case True
  assume "inv g"
  then show ?thesis using True by (simp add: deleteNode_def)
next
  case False
  assume "inv g"
  from deleteNode_live[OF this False] show ?thesis by auto
qed

lemma reachable_inv: "reachable g \<Longrightarrow> inv g"
proof (induction rule: reachable.induct)
  case r_new
  show ?case by (simp add: inv_def Graph_new_def pairs_def adj_set_def adj_at_def joined_def all_sets_def)
next
  case (r_getOrCreate g nm)
  then show ?case by (simp add: getOrCreate_inv)
next
  case (r_addFriendGroup g names d)
  then show ?case by (simp add: addFriendGroup_inv)
next
  case (r_addOrUpdateEdge g i j d)
  then show ?case by (simp add: addOrUpdateEdge_inv)
next
  case (r_renameNode g i newName)
  then show ?case by (simp add: renameNode_inv)
next
  case (r_deleteNode g i)
  then show ?case by (simp add: deleteNode_inv)
next
  case (r_update g t)
  then show ?case by (simp add: update_inv)
qed

subsection \<open>Duplicate names in a friend group\<close>

lemma addFriendGroup_AA:
  "addFriendGroup Graph_new [''A'', ''A''] d =
     (Inr (), \<lparr> nodes = [Live (new_Node ''A'')], edges = [(0, 0, d)],
                pairToEdgeIndex = Map.empty(''0:0'' \<mapsto> 0), adj = [Some {0}] \<rparr>)"
  by (simp add: addFriendGroup_def getOrCreateNodeIndex_def Graph_new_def addOrUpdateEdge_def
      pair_key_def num_str.simps digit_char_def adj_add_def adj_at_def new_Node_def)

text \<open>
  Claim C10. There is an input of \<open>addFriendGroup\<close>, a list that names the same friend
  twice, after which the edge list holds an edge from an index to itself, the adjacency
  set of that index contains the index, and \<open>degree\<close> counts the node as a neighbour of
  itself: on the empty graph \<open>addFriendGroup(["A", "A"], d)\<close> returns normally, stores the
  single edge \<open>(0, 0, d)\<close>, makes \<open>_adj[0]\<close> the set \<open>{0}\<close> and \<open>degree(0)\<close> is 1.
\<close>

theorem addFriendGroup_duplicate_name_self_edge:
  "fst (addFriendGroup Graph_new [''A'', ''A''] d) = Inr ()
   \<and> edges (snd (addFriendGroup Graph_new [''A'', ''A''] d)) = [(0, 0, d)]
   \<and> adj_at (snd (addFriendGroup Graph_new [''A'', ''A''] d)) 0 = Some {0}
   \<and> degree (snd (addFriendGroup Graph_new [''A'', ''A''] d)) 0 = Inr 1"
  by (simp add: addFriendGroup_AA degree_def adj_at_def)

subsection \<open>Adjacency sets and pair index reflect the edge list\<close>

lemma inv_joined_le: "inv g \<Longrightarrow> a \<le> b \<Longrightarrow> joined g a b \<longleftrightarrow> (a, b) \<in> set (pairs g)"
proof -
  assume i: "inv g" and le: "a \<le> b"
  have "(b, a) \<in> set (pairs g) \<Longrightarrow> (a, b) \<in> set (pairs g)"
  proof -
    assume m: "(b, a) \<in> set (pairs g)"
    then have "b \<le> a" using i by (auto simp: inv_def)
    with le have "a = b" by simp
    with m show ?thesis by simp
  qed
  then show ?thesis by (auto simp: joined_def)
qed

lemma inv_joined_sym: "joined g a b = joined g b a"
  by (auto simp: joined_def)

text \<open>
  Claim C1, as amended. After every sequence of public operations (\<open>getOrCreateNodeIndex\<close>,
  \<open>addFriendGroup\<close>, \<open>addOrUpdateEdge\<close> with live endpoints, \<open>renameNode\<close>,
  \<open>deleteNode\<close>, \<open>update\<close>, with any other arguments and whether or not a call
  throws), the adjacency sets and the pair index reflect the edge list exactly. Every
  stored edge has its smaller endpoint first. For all indices \<open>a \<le> b\<close>: \<open>b\<close> is in
  \<open>_adj[a]\<close> if and only if an edge \<open>(a, b)\<close> is stored, and \<open>a\<close> is in \<open>_adj[b]\<close> if and
  only if it is, so that no adjacency set holds a stale index and none misses a stored
  edge; the pair index maps the key of \<open>(a, b)\<close> to the position of that edge; and every
  entry of the pair index is the key of such a pair, stored at that position. The pairs
  are those with \<open>a \<le> b\<close>, not only \<open>a < b\<close>: an edge from an index to itself can be
  stored, and it has its entry too.
\<close>

theorem adjacency_and_pair_index_exact:
  assumes "reachable g"
  shows "(\<forall>ab \<in> set (pairs g). fst ab \<le> snd ab)
    \<and> adjacency_exact (\<le>) g
    \<and> index_exact (\<le>) g
    \<and> (\<forall>x y. y \<in> adj_set g x \<longleftrightarrow> (x, y) \<in> set (pairs g) \<or> (y, x) \<in> set (pairs g))"
proof -
  have i: "inv g" using assms by (rule reachable_inv)
  have X: "\<And>x y. y \<in> adj_set g x \<longleftrightarrow> joined g x y" using i by (simp add: inv_def)
  have E: "\<forall>ab \<in> set (pairs g). fst ab \<le> snd ab" using i by (simp add: inv_def)
  have P: "\<And>k p. pairToEdgeIndex g k = Some p \<longleftrightarrow> p < length (pairs g) \<and> key_of (pairs g ! p) = k"
    using i by (simp add: inv_def)
  have A: "adjacency_exact (\<le>) g" unfolding adjacency_exact_def
  proof (intro conjI allI impI)
    fix a b :: nat assume le: "a \<le> b"
    show "b \<in> adj_set g a \<longleftrightarrow> (a, b) \<in> set (pairs g)"
      using X[of b a] inv_joined_le[OF i le] by simp
    show "a \<in> adj_set g b \<longleftrightarrow> (a, b) \<in> set (pairs g)"
      using X[of a b] inv_joined_le[OF i le] inv_joined_sym[of g b a] by simp
  qed
  have I: "index_exact (\<le>) g" unfolding index_exact_def
  proof (intro conjI allI impI)
    fix a b p assume "a \<le> b" "p < length (edges g) \<and> ends (edges g ! p) = (a, b)"
    then show "pairToEdgeIndex g (pair_key a b) = Some p" using inv_lookup[OF i] by simp
  next
    fix k p assume kp: "pairToEdgeIndex g k = Some p"
    then have p: "p < length (pairs g)" "key_of (pairs g ! p) = k" using P by auto
    obtain a b where ab: "pairs g ! p = (a, b)" by (cases "pairs g ! p")
    have "(a, b) \<in> set (pairs g)" using p(1) ab by (metis nth_mem)
    then have "a \<le> b" using E by auto
    moreover have "k = pair_key a b" using p(2) ab by (simp add: key_of_def)
    moreover have "p < length (edges g)" "ends (edges g ! p) = (a, b)"
      using p(1) ab by (simp_all add: pairs_def)
    ultimately show "\<exists>a b. a \<le> b \<and> k = pair_key a b \<and> p < length (edges g) \<and> ends (edges g ! p) = (a, b)"
      by blast
  qed
  have J: "\<forall>x y. y \<in> adj_set g x \<longleftrightarrow> (x, y) \<in> set (pairs g) \<or> (y, x) \<in> set (pairs g)"
    using X by (simp add: joined_def)
  from E A I J show ?thesis by blast
qed

lemma addFriendGroup_AB:
  "addFriendGroup Graph_new [''A'', ''B''] d =
     (Inr (), \<lparr> nodes = [Live (new_Node ''A''), Live (new_Node ''B'')], edges = [(0, 1, d)],
                pairToEdgeIndex = Map.empty(''0:1'' \<mapsto> 0), adj = [Some {1}, Some {0}] \<rparr>)"
  by (simp add: addFriendGroup_def getOrCreateNodeIndex_def Graph_new_def addOrUpdateEdge_def
      pair_key_def num_str.simps digit_char_def adj_add_def adj_at_def new_Node_def)

text \<open>
  The theorem at the graph of one friend group of two: 1 is in \<open>_adj[0]\<close>, 0 is in
  \<open>_adj[1]\<close>, and the edge \<open>(0, 1)\<close> is stored.
\<close>

theorem adjacency_and_pair_index_exact_witness:
  "reachable (snd (addFriendGroup Graph_new [''A'', ''B''] (Date 2020)))
   \<and> adjacency_exact (\<le>) (snd (addFriendGroup Graph_new [''A'', ''B''] (Date 2020)))
   \<and> index_exact (\<le>) (snd (addFriendGroup Graph_new [''A'', ''B''] (Date 2020)))
   \<and> 1 \<in> adj_set (snd (addFriendGroup Graph_new [''A'', ''B''] (Date 2020))) 0
   \<and> 0 \<in> adj_set (snd (addFriendGroup Graph_new [''A'', ''B''] (Date 2020))) 1
   \<and> (0, 1) \<in> set (pairs (snd (addFriendGroup Graph_new [''A'', ''B''] (Date 2020))))"
proof -
  let ?G = "snd (addFriendGroup Graph_new [''A'', ''B''] (Date 2020))"
  have r: "reachable ?G" by (rule r_addFriendGroup[OF r_new])
  note T = adjacency_and_pair_index_exact[OF r]
  have a: "adjacency_exact (\<le>) ?G" using T by blast
  have b: "index_exact (\<le>) ?G" using T by blast
  have c: "1 \<in> adj_set ?G 0" "0 \<in> adj_set ?G 1"
    by (simp_all add: addFriendGroup_AB adj_set_def adj_at_def)
  have d: "(0, 1) \<in> set (pairs ?G)" by (simp add: addFriendGroup_AB pairs_def ends_def)
  from r a b c d show ?thesis by blast
qed

text \<open>
  Claim C1 as stated, for the pairs \<open>a < b\<close> only, fails after \<open>addFriendGroup(["A", "A"], d)\<close>
  on the empty graph: the pair index then holds the entry \<open>"0:0" \<mapsto> 0\<close>, which is not the
  key of a pair \<open>a < b\<close>, so that the index has an entry other than those the claim admits.
\<close>

theorem pair_index_entry_of_self_pair:
  "reachable (snd (addFriendGroup Graph_new [''A'', ''A''] (Date 2020)))
   \<and> pairToEdgeIndex (snd (addFriendGroup Graph_new [''A'', ''A''] (Date 2020))) ''0:0'' = Some 0
   \<and> edges (snd (addFriendGroup Graph_new [''A'', ''A''] (Date 2020))) = [(0, 0, Date 2020)]
   \<and> \<not> index_exact (<) (snd (addFriendGroup Graph_new [''A'', ''A''] (Date 2020)))"
proof -
  let ?G = "snd (addFriendGroup Graph_new [''A'', ''A''] (Date 2020))"
  have r: "reachable ?G" by (rule r_addFriendGroup[OF r_new])
  have k: "pairToEdgeIndex ?G ''0:0'' = Some 0" by (simp add: addFriendGroup_AA)
  have e: "edges ?G = [(0, 0, Date 2020)]" by (simp add: addFriendGroup_AA)
  have n: "\<not> index_exact (<) ?G"
  proof
    assume "index_exact (<) ?G"
    with k obtain a b where "a < b" "ends (edges ?G ! 0) = (a, b)"
      unfolding index_exact_def by blast
    then show False by (simp add: addFriendGroup_AA ends_def)
  qed
  from r k e n show ?thesis by blast
qed

subsection \<open>Deleting a node\<close>

lemma inv_adj_finite: "inv g \<Longrightarrow> finite (adj_set g x)"
proof -
  assume i: "inv g"
  have "adj_set g x \<subseteq> fst ` set (pairs g) \<union> snd ` set (pairs g)"
  proof
    fix y assume "y \<in> adj_set g x"
    then have "joined g x y" using i by (simp add: inv_def)
    then have "(x, y) \<in> set (pairs g) \<or> (y, x) \<in> set (pairs g)" by (simp add: joined_def)
    then show "y \<in> fst ` set (pairs g) \<union> snd ` set (pairs g)" by force
  qed
  then show ?thesis by (rule finite_subset) simp
qed

lemma inv_degree: "inv g \<Longrightarrow> y \<in> adj_set g x \<Longrightarrow> degree g x = Inr (card (adj_set g x))"
  by (auto simp: degree_def adj_set_def split: option.splits)

lemma deleteNode_neighbours:
  assumes "inv g" "slot_at g i \<noteq> Free" "x \<noteq> i"
  shows "adj_set (snd (deleteNode g i)) x = adj_set g x - {i}"
proof -
  from deleteNode_live[OF assms(1,2)] obtain g' where g':
    "deleteNode g i = (Inr (map ends (filter (incident i) (edges g))), g')"
    "edges g' = filter (\<lambda>e. \<not> incident i e) (edges g)" "inv g'" by blast
  have pk: "pairs g' = filter (\<lambda>ab. \<not> (fst ab = i \<or> snd ab = i)) (pairs g)"
    using g'(2) by (simp add: pairs_def filter_map comp_def incident_ends)
  have "y \<in> adj_set g' x \<longleftrightarrow> y \<in> adj_set g x - {i}" for y
  proof -
    have "y \<in> adj_set g' x \<longleftrightarrow> joined g' x y" using g'(3) by (simp add: inv_def)
    also have "\<dots> \<longleftrightarrow> joined g x y \<and> y \<noteq> i" using assms(3) by (auto simp: joined_def pk)
    also have "\<dots> \<longleftrightarrow> y \<in> adj_set g x - {i}" using assms(1) by (simp add: inv_def)
    finally show ?thesis .
  qed
  then show ?thesis using g'(1) by auto
qed

text \<open>
  Claim C2, as amended. For every in-bounds index \<open>i\<close> of a reachable graph: if slot \<open>i\<close>
  is free, \<open>deleteNode(i)\<close> returns the empty list and changes nothing; otherwise it
  returns exactly the endpoint pairs of the edges incident to \<open>i\<close>, in edge-storage order,
  slot \<open>i\<close> is \<open>null\<close> afterwards and the other slots are as before, the edge list keeps
  exactly the edges not incident to \<open>i\<close>, so that no stored edge references \<open>i\<close>, and
  the adjacency set of every former neighbour of \<open>i\<close> other than \<open>i\<close> itself is its
  former set without \<open>i\<close>, so that its degree decreases by exactly one. The adjacency
  set of \<open>i\<close> itself becomes empty.
\<close>

theorem deleteNode_removes_incident_edges:
  assumes "reachable g" "i < length (nodes g)"
  shows "(slot_at g i = Free \<longrightarrow> deleteNode g i = (Inr [], g))
    \<and> (slot_at g i \<noteq> Free \<longrightarrow>
         fst (deleteNode g i) = Inr (map ends (filter (incident i) (edges g)))
         \<and> nodes (snd (deleteNode g i)) = (nodes g)[i := Free]
         \<and> edges (snd (deleteNode g i)) = filter (\<lambda>e. \<not> incident i e) (edges g)
         \<and> (\<forall>e \<in> set (edges (snd (deleteNode g i))). fst e \<noteq> i \<and> fst (snd e) \<noteq> i)
         \<and> adj_set (snd (deleteNode g i)) i = {}
         \<and> (\<forall>x. x \<noteq> i \<and> i \<in> adj_set g x \<longrightarrow>
               adj_set (snd (deleteNode g i)) x = adj_set g x - {i}
               \<and> (\<exists>n. degree g x = Inr (Suc n) \<and> degree (snd (deleteNode g i)) x = Inr n)))"
proof (intro conjI impI)
  assume "slot_at g i = Free"
  then show "deleteNode g i = (Inr [], g)" by (simp add: deleteNode_def)
next
  assume nf: "slot_at g i \<noteq> Free"
  have i: "inv g" using assms(1) by (rule reachable_inv)
  from deleteNode_live[OF i nf] obtain g' where g':
    "deleteNode g i = (Inr (map ends (filter (incident i) (edges g))), g')"
    "nodes g' = js_set Hole (nodes g) i Free"
    "edges g' = filter (\<lambda>e. \<not> incident i e) (edges g)" "inv g'" by blast
  show "fst (deleteNode g i) = Inr (map ends (filter (incident i) (edges g)))"
    using g'(1) by simp
  show "nodes (snd (deleteNode g i)) = (nodes g)[i := Free]"
    using g'(1,2) assms(2) by (simp add: js_set_def)
  show "edges (snd (deleteNode g i)) = filter (\<lambda>e. \<not> incident i e) (edges g)"
    using g'(1,3) by simp
  show "\<forall>e \<in> set (edges (snd (deleteNode g i))). fst e \<noteq> i \<and> fst (snd e) \<noteq> i"
    using g'(1,3) by (auto simp: incident_def)
  have "\<not> live g' i" using g'(2) assms(2) by (simp add: live_iff js_set_def)
  then have "\<not> joined g' i y" for y using inv_edge_live[OF g'(4), of i y] by blast
  then show "adj_set (snd (deleteNode g i)) i = {}" using g'(1,4) by (auto simp: inv_def)
  show "\<forall>x. x \<noteq> i \<and> i \<in> adj_set g x \<longrightarrow>
          adj_set (snd (deleteNode g i)) x = adj_set g x - {i}
          \<and> (\<exists>n. degree g x = Inr (Suc n) \<and> degree (snd (deleteNode g i)) x = Inr n)"
  proof (intro allI impI conjI)
    fix x assume x: "x \<noteq> i \<and> i \<in> adj_set g x"
    show a: "adj_set (snd (deleteNode g i)) x = adj_set g x - {i}"
      using deleteNode_neighbours[OF i nf] x by simp
    have fin: "finite (adj_set g x)" using i by (rule inv_adj_finite)
    then have c: "card (adj_set g x) = Suc (card (adj_set g x - {i}))"
      using x card_Suc_Diff1[of "adj_set g x" i] by simp
    have d: "degree g x = Inr (card (adj_set g x))" using inv_degree[OF i] x by blast
    have "x < length (adj g)" using x by (auto simp: adj_set_def adj_at_def split: if_splits)
    then have "x < length (adj g')" using g'(2,4) i assms(2) by (simp add: inv_def js_set_def)
    then obtain s where "adj_at g' x = Some s" using g'(4) by (auto simp: inv_def all_sets_def adj_at_def)
    then have "degree g' x = Inr (card (adj_set g' x))" by (simp add: degree_def adj_set_def)
    then have "degree (snd (deleteNode g i)) x = Inr (card (adj_set g x - {i}))"
      using a g'(1) by simp
    with d c show "\<exists>n. degree g x = Inr (Suc n) \<and> degree (snd (deleteNode g i)) x = Inr n"
      by simp
  qed
qed

lemma addFriendGroup_AAB:
  "addFriendGroup Graph_new [''A'', ''A'', ''B''] d =
     (Inr (), \<lparr> nodes = [Live (new_Node ''A''), Live (new_Node ''B'')],
                edges = [(0, 0, d), (0, 1, d)],
                pairToEdgeIndex = Map.empty(''0:0'' \<mapsto> 0, ''0:1'' \<mapsto> 1),
                adj = [Some {1, 0}, Some {0}] \<rparr>)"
  by (simp add: addFriendGroup_def getOrCreateNodeIndex_def Graph_new_def addOrUpdateEdge_def
      pair_key_def num_str.simps digit_char_def adj_add_def adj_at_def new_Node_def)

lemma deleteNode_AAB:
  "deleteNode (snd (addFriendGroup Graph_new [''A'', ''A'', ''B''] d)) 0 =
     (Inr [(0, 0), (0, 1)],
      \<lparr> nodes = [Free, Live (new_Node ''B'')], edges = [],
        pairToEdgeIndex = Map.empty, adj = [Some {}, Some {}] \<rparr>)"
  by (simp add: addFriendGroup_AAB deleteNode_def slot_at_def js_set_def incident_def
      rebuildEdgeIndex_def)

text \<open>The theorem at the graph of the friend group \<open>["A", "B"]\<close>, deleting node 0.\<close>

theorem deleteNode_removes_incident_edges_witness:
  "reachable (snd (addFriendGroup Graph_new [''A'', ''B''] (Date 2020)))
   \<and> (0::nat) < length (nodes (snd (addFriendGroup Graph_new [''A'', ''B''] (Date 2020))))
   \<and> slot_at (snd (addFriendGroup Graph_new [''A'', ''B''] (Date 2020))) 0 \<noteq> Free
   \<and> fst (deleteNode (snd (addFriendGroup Graph_new [''A'', ''B''] (Date 2020))) 0) = Inr [(0, 1)]
   \<and> edges (snd (deleteNode (snd (addFriendGroup Graph_new [''A'', ''B''] (Date 2020))) 0)) = []
   \<and> (1::nat) \<noteq> 0 \<and> 0 \<in> adj_set (snd (addFriendGroup Graph_new [''A'', ''B''] (Date 2020))) 1
   \<and> adj_set (snd (deleteNode (snd (addFriendGroup Graph_new [''A'', ''B''] (Date 2020))) 0)) 1 = {}"
proof -
  let ?G = "snd (addFriendGroup Graph_new [''A'', ''B''] (Date 2020))"
  have r: "reachable ?G" by (rule r_addFriendGroup[OF r_new])
  have l: "0 < length (nodes ?G)" by (simp add: addFriendGroup_AB)
  have nf: "slot_at ?G 0 \<noteq> Free" by (simp add: addFriendGroup_AB slot_at_def)
  have n: "(1::nat) \<noteq> 0 \<and> 0 \<in> adj_set ?G 1" by (simp add: addFriendGroup_AB adj_set_def adj_at_def)
  note T = deleteNode_removes_incident_edges[OF r l, THEN conjunct2, rule_format, OF nf]
  have a: "fst (deleteNode ?G 0) = Inr (map ends (filter (incident 0) (edges ?G)))"
    using T by (rule conjunct1)
  have a': "map ends (filter (incident 0) (edges ?G)) = [(0, 1)]"
    by (simp add: addFriendGroup_AB incident_def ends_def)
  have b: "edges (snd (deleteNode ?G 0)) = filter (\<lambda>e. \<not> incident 0 e) (edges ?G)"
    using T by blast
  have b': "filter (\<lambda>e. \<not> incident 0 e) (edges ?G) = []"
    by (simp add: addFriendGroup_AB incident_def)
  have c: "adj_set (snd (deleteNode ?G 0)) 1 = adj_set ?G 1 - {0}"
    using T n by blast
  have c': "adj_set ?G 1 - {0} = {}" by (simp add: addFriendGroup_AB adj_set_def adj_at_def)
  from r l nf n a[unfolded a'] b[unfolded b'] c[unfolded c'] show ?thesis by blast
qed

text \<open>
  Claim C2 as stated fails where \<open>i\<close> is its own neighbour. After
  \<open>addFriendGroup(["A", "A", "B"], d)\<close> on the empty graph the edges are \<open>(0, 0)\<close> and
  \<open>(0, 1)\<close>, index 0 is in \<open>_adj[0]\<close> and \<open>degree(0)\<close> is 2; \<open>deleteNode(0)\<close> leaves
  \<open>degree(0) = 0\<close>: the degree of the former neighbour 0 has decreased by two.
\<close>

theorem deleteNode_own_neighbour_degree:
  "reachable (snd (addFriendGroup Graph_new [''A'', ''A'', ''B''] (Date 2020)))
   \<and> slot_at (snd (addFriendGroup Graph_new [''A'', ''A'', ''B''] (Date 2020))) 0 \<noteq> Free
   \<and> 0 \<in> adj_set (snd (addFriendGroup Graph_new [''A'', ''A'', ''B''] (Date 2020))) 0
   \<and> degree (snd (addFriendGroup Graph_new [''A'', ''A'', ''B''] (Date 2020))) 0 = Inr 2
   \<and> degree (snd (deleteNode (snd (addFriendGroup Graph_new [''A'', ''A'', ''B''] (Date 2020))) 0)) 0 = Inr 0"
proof -
  let ?G = "snd (addFriendGroup Graph_new [''A'', ''A'', ''B''] (Date 2020))"
  have r: "reachable ?G" by (rule r_addFriendGroup[OF r_new])
  have nf: "slot_at ?G 0 \<noteq> Free" by (simp add: addFriendGroup_AAB slot_at_def)
  have n: "0 \<in> adj_set ?G 0" by (simp add: addFriendGroup_AAB adj_set_def adj_at_def)
  have d: "degree ?G 0 = Inr 2" by (simp add: addFriendGroup_AAB degree_def adj_at_def)
  have d': "degree (snd (deleteNode ?G 0)) 0 = Inr 0"
    by (simp add: deleteNode_AAB degree_def adj_at_def)
  from r nf n d d' show ?thesis by blast
qed

subsection \<open>One edge per pair, with the earliest date\<close>

lemma addOrUpdateEdge_swap: "addOrUpdateEdge g j i d = addOrUpdateEdge g i j d"
proof -
  have "(if j < i then j else i) = (if i < j then i else j)" by auto
  moreover have "(if j < i then i else j) = (if i < j then j else i)" by auto
  ultimately show ?thesis by (simp add: addOrUpdateEdge_def)
qed

lemma inv_unique_position:
  "inv g \<Longrightarrow> p < length (edges g) \<Longrightarrow> q < length (edges g) \<Longrightarrow>
   ends (edges g ! p) = ends (edges g ! q) \<Longrightarrow> p = q"
proof -
  assume i: "inv g" and p: "p < length (edges g)" and q: "q < length (edges g)"
    and e: "ends (edges g ! p) = ends (edges g ! q)"
  obtain a b where ab: "ends (edges g ! q) = (a, b)" by (cases "ends (edges g ! q)")
  have "pairToEdgeIndex g (pair_key a b) = Some p" using inv_lookup[OF i] p e ab by simp
  moreover have "pairToEdgeIndex g (pair_key a b) = Some q" using inv_lookup[OF i] q ab by simp
  ultimately show ?thesis by simp
qed

lemma addOrUpdateEdge_stored:
  assumes "inv g" "live g i" "live g j"
    and "a = (if i < j then i else j)" "b = (if i < j then j else i)"
  shows "\<exists>p. pairToEdgeIndex (snd (addOrUpdateEdge g i j d)) (pair_key a b) = Some p
           \<and> p < length (edges (snd (addOrUpdateEdge g i j d)))
           \<and> edges (snd (addOrUpdateEdge g i j d)) ! p =
               (a, b, case pairToEdgeIndex g (pair_key a b) of
                        None \<Rightarrow> d
                      | Some p0 \<Rightarrow> earliest (snd (snd (edges g ! p0))) d)"
proof (cases "pairToEdgeIndex g (pair_key a b)")
  case None
  from addOrUpdateEdge_new[OF assms(1,4,5,2,3) None, of d] obtain g' where g':
    "addOrUpdateEdge g i j d = (Inr (), g')" "edges g' = edges g @ [(a, b, d)]"
    "pairToEdgeIndex g' = (pairToEdgeIndex g)(pair_key a b \<mapsto> length (edges g))" by blast
  then show ?thesis using None by simp
next
  case (Some p)
  from addOrUpdateEdge_existing[OF assms(1,4,5) Some, of d]
  have p: "p < length (edges g)" "ends (edges g ! p) = (a, b)"
    and r: "addOrUpdateEdge g i j d =
             (Inr (), g\<lparr> edges := (edges g)[p := (a, b, earliest (snd (snd (edges g ! p))) d)] \<rparr>)"
    by auto
  show ?thesis using Some p r by simp
qed

lemma earliest_cases:
  "earliest (Date x) (Date y) = Date (min x y)"
  "earliest Invalid_Date d = Invalid_Date"
  "earliest d Invalid_Date = d"
  by (cases d; simp add: earliest_def min_def)+

text \<open>
  Claim C3, as amended. For every reachable graph, every pair of distinct live indices
  \<open>i\<close> and \<open>j\<close> and any two dates \<open>d1\<close> and \<open>d2\<close>, valid or not: \<open>addOrUpdateEdge(i, j, d1)\<close>
  followed by \<open>addOrUpdateEdge\<close> on the same unordered pair, in either endpoint order,
  with date \<open>d2\<close>, both return normally and leave exactly one edge for the unordered
  pair in storage, stored with its smaller endpoint first. Its date is the first date
  stored for the pair (\<open>d1\<close>, or the date \<open>d0\<close> of the edge the pair had before), replaced
  in turn by each later date whose time is less than the stored one's. For valid dates
  that is \<open>min(d1, d2)\<close> when the pair had no edge before the first call and
  \<open>min(d0, d1, d2)\<close> when it had one. An Invalid Date compares false both ways: once
  stored it is never replaced, and given later it never replaces a stored date, so that
  with an Invalid Date the result depends on the order of the calls.
\<close>

theorem addOrUpdateEdge_twice:
  assumes "reachable g" "live g i" "live g j" "i \<noteq> j"
    and "(i', j') = (i, j) \<or> (i', j') = (j, i)"
  shows "fst (addOrUpdateEdge g i j d1) = Inr ()
    \<and> fst (addOrUpdateEdge (snd (addOrUpdateEdge g i j d1)) i' j' d2) = Inr ()
    \<and> (\<exists>p < length (edges (snd (addOrUpdateEdge (snd (addOrUpdateEdge g i j d1)) i' j' d2))).
          edges (snd (addOrUpdateEdge (snd (addOrUpdateEdge g i j d1)) i' j' d2)) ! p =
            (min i j, max i j,
             case pairToEdgeIndex g (pair_key (min i j) (max i j)) of
               None \<Rightarrow> earliest d1 d2
             | Some p0 \<Rightarrow> earliest (earliest (snd (snd (edges g ! p0))) d1) d2)
          \<and> (\<forall>q < length (edges (snd (addOrUpdateEdge (snd (addOrUpdateEdge g i j d1)) i' j' d2))).
                ends (edges (snd (addOrUpdateEdge (snd (addOrUpdateEdge g i j d1)) i' j' d2)) ! q) = (i, j)
                \<or> ends (edges (snd (addOrUpdateEdge (snd (addOrUpdateEdge g i j d1)) i' j' d2)) ! q) = (j, i)
                \<longrightarrow> q = p))
    \<and> (\<forall>x y. earliest (Date x) (Date y) = Date (min x y))
    \<and> (\<forall>d. earliest Invalid_Date d = Invalid_Date \<and> earliest d Invalid_Date = d)"
proof -
  define a where "a = (if i < j then i else j)"
  define b where "b = (if i < j then j else i)"
  have mm: "min i j = a" "max i j = b" by (auto simp: a_def b_def)
  have ab: "a < b" using assms(4) by (auto simp: a_def b_def)
  define g1 where "g1 = snd (addOrUpdateEdge g i j d1)"
  have e2: "addOrUpdateEdge g1 i' j' d2 = addOrUpdateEdge g1 i j d2"
    using assms(5) addOrUpdateEdge_swap[of g1 j i d2] by auto
  define g2 where "g2 = snd (addOrUpdateEdge g1 i j d2)"
  have i0: "inv g" using assms(1) by (rule reachable_inv)
  from addOrUpdateEdge_inv[OF i0 assms(2,3), of d1]
  have s1: "fst (addOrUpdateEdge g i j d1) = Inr ()" "inv g1" "nodes g1 = nodes g"
    by (simp_all add: g1_def)
  have l1: "live g1 i" "live g1 j" using assms(2,3) s1(3) by (simp_all add: live_iff)
  from addOrUpdateEdge_inv[OF s1(2) l1, of d2]
  have s2: "fst (addOrUpdateEdge g1 i j d2) = Inr ()" "inv g2" by (simp_all add: g2_def)
  from addOrUpdateEdge_stored[OF i0 assms(2,3) a_def b_def, of d1] obtain p1 where p1:
    "pairToEdgeIndex g1 (pair_key a b) = Some p1" "p1 < length (edges g1)"
    "edges g1 ! p1 = (a, b, case pairToEdgeIndex g (pair_key a b) of
                        None \<Rightarrow> d1 | Some p0 \<Rightarrow> earliest (snd (snd (edges g ! p0))) d1)"
    unfolding g1_def by blast
  from addOrUpdateEdge_stored[OF s1(2) l1 a_def b_def, of d2] obtain p where p:
    "pairToEdgeIndex g2 (pair_key a b) = Some p" "p < length (edges g2)"
    "edges g2 ! p = (a, b, case pairToEdgeIndex g1 (pair_key a b) of
                        None \<Rightarrow> d2 | Some p0 \<Rightarrow> earliest (snd (snd (edges g1 ! p0))) d2)"
    unfolding g2_def by blast
  have date: "edges g2 ! p = (a, b, case pairToEdgeIndex g (pair_key a b) of
                 None \<Rightarrow> earliest d1 d2
               | Some p0 \<Rightarrow> earliest (earliest (snd (snd (edges g ! p0))) d1) d2)"
    using p(3) p1(1,3) by (auto split: option.splits)
  have uniq: "\<forall>q < length (edges g2). ends (edges g2 ! q) = (i, j) \<or> ends (edges g2 ! q) = (j, i) \<longrightarrow> q = p"
  proof (intro allI impI)
    fix q assume q: "q < length (edges g2)"
      and e: "ends (edges g2 ! q) = (i, j) \<or> ends (edges g2 ! q) = (j, i)"
    have "(fst (ends (edges g2 ! q)), snd (ends (edges g2 ! q))) \<in> set (pairs g2)"
      using q by (auto simp: pairs_def)
    then have "fst (ends (edges g2 ! q)) \<le> snd (ends (edges g2 ! q))"
      using s2(2) by (auto simp: inv_def)
    with e have "ends (edges g2 ! q) = (a, b)" by (auto simp: a_def b_def)
    moreover have "ends (edges g2 ! p) = (a, b)" using date by (simp add: ends_def)
    ultimately show "q = p" using inv_unique_position[OF s2(2) q p(2)] by simp
  qed
  have main: "fst (addOrUpdateEdge g i j d1) = Inr ()
    \<and> fst (addOrUpdateEdge g1 i j d2) = Inr ()
    \<and> (\<exists>p < length (edges g2).
          edges g2 ! p =
            (a, b,
             case pairToEdgeIndex g (pair_key a b) of
               None \<Rightarrow> earliest d1 d2
             | Some p0 \<Rightarrow> earliest (earliest (snd (snd (edges g ! p0))) d1) d2)
          \<and> (\<forall>q < length (edges g2).
                ends (edges g2 ! q) = (i, j) \<or> ends (edges g2 ! q) = (j, i) \<longrightarrow> q = p))"
    using s1(1) s2(1) p(2) date uniq by blast
  show ?thesis
    unfolding e2 g1_def[symmetric] g2_def[symmetric] mm
    using main earliest_cases by blast
qed

lemma two_nodes_AB:
  "snd (getOrCreateNodeIndex (snd (getOrCreateNodeIndex Graph_new ''A'')) ''B'') =
     \<lparr> nodes = [Live (new_Node ''A''), Live (new_Node ''B'')], edges = [],
       pairToEdgeIndex = Map.empty, adj = [Some {}, Some {}] \<rparr>"
  by (simp add: getOrCreateNodeIndex_def Graph_new_def new_Node_def)

lemma pair_key_0_1: "pair_key 0 (Suc 0) = ''0:1''"
  by (simp add: pair_key_def num_str.simps digit_char_def)

text \<open>
  The theorem at the graph of two nodes and no edge, with the dates of the spec's example:
  2020, then 2015 with the endpoints swapped, leave the single edge \<open>(0, 1, 2015)\<close>. With
  an Invalid Date the order of the calls decides: given first it stays, given second it is
  ignored.
\<close>

theorem addOrUpdateEdge_twice_witness:
  "reachable (snd (getOrCreateNodeIndex (snd (getOrCreateNodeIndex Graph_new ''A'')) ''B''))
   \<and> live (snd (getOrCreateNodeIndex (snd (getOrCreateNodeIndex Graph_new ''A'')) ''B'')) 0
   \<and> live (snd (getOrCreateNodeIndex (snd (getOrCreateNodeIndex Graph_new ''A'')) ''B'')) 1
   \<and> (0::nat) \<noteq> 1
   \<and> fst (addOrUpdateEdge (snd (addOrUpdateEdge
        (snd (getOrCreateNodeIndex (snd (getOrCreateNodeIndex Graph_new ''A'')) ''B''))
        0 1 (Date 2020))) 1 0 (Date 2015)) = Inr ()
   \<and> edges (snd (addOrUpdateEdge (snd (addOrUpdateEdge
        (snd (getOrCreateNodeIndex (snd (getOrCreateNodeIndex Graph_new ''A'')) ''B''))
        0 1 (Date 2020))) 1 0 (Date 2015))) = [(0, 1, Date 2015)]
   \<and> edges (snd (addOrUpdateEdge (snd (addOrUpdateEdge
        (snd (getOrCreateNodeIndex (snd (getOrCreateNodeIndex Graph_new ''A'')) ''B''))
        0 1 Invalid_Date)) 1 0 (Date 2015))) = [(0, 1, Invalid_Date)]
   \<and> edges (snd (addOrUpdateEdge (snd (addOrUpdateEdge
        (snd (getOrCreateNodeIndex (snd (getOrCreateNodeIndex Graph_new ''A'')) ''B''))
        0 1 (Date 2015))) 1 0 Invalid_Date)) = [(0, 1, Date 2015)]"
proof -
  let ?G = "snd (getOrCreateNodeIndex (snd (getOrCreateNodeIndex Graph_new ''A'')) ''B'')"
  have r: "reachable ?G" by (rule r_getOrCreate[OF r_getOrCreate[OF r_new]])
  have l0: "live ?G 0" by (simp add: two_nodes_AB live_def slot_at_def)
  have l1: "live ?G 1" by (simp add: two_nodes_AB live_def slot_at_def)
  have ne: "(0::nat) \<noteq> 1" by simp
  have sw: "((1::nat), (0::nat)) = (0, 1) \<or> ((1::nat), (0::nat)) = (1, 0)" by simp
  note T = addOrUpdateEdge_twice[OF r l0 l1 ne sw, of "Date 2020" "Date 2015"]
  have a: "fst (addOrUpdateEdge (snd (addOrUpdateEdge ?G 0 1 (Date 2020))) 1 0 (Date 2015)) = Inr ()"
    using T by blast
  have b: "edges (snd (addOrUpdateEdge (snd (addOrUpdateEdge ?G 0 1 (Date 2020))) 1 0 (Date 2015))) = [(0, 1, Date 2015)]"
    by (simp add: two_nodes_AB addOrUpdateEdge_def pair_key_0_1 adj_add_def adj_at_def)
  note T1 = addOrUpdateEdge_twice[OF r l0 l1 ne sw, of Invalid_Date "Date 2015"]
  have "\<exists>p < length (edges (snd (addOrUpdateEdge (snd (addOrUpdateEdge ?G 0 1 Invalid_Date)) 1 0 (Date 2015)))).
      edges (snd (addOrUpdateEdge (snd (addOrUpdateEdge ?G 0 1 Invalid_Date)) 1 0 (Date 2015))) ! p
        = (min 0 1, max 0 1,
           case pairToEdgeIndex ?G (pair_key (min 0 1) (max 0 1)) of
             None \<Rightarrow> earliest Invalid_Date (Date 2015)
           | Some p0 \<Rightarrow> earliest (earliest (snd (snd (edges ?G ! p0))) Invalid_Date) (Date 2015))"
    using T1 by blast
  have c: "edges (snd (addOrUpdateEdge (snd (addOrUpdateEdge ?G 0 1 Invalid_Date)) 1 0 (Date 2015))) = [(0, 1, Invalid_Date)]"
    by (simp add: two_nodes_AB addOrUpdateEdge_def pair_key_0_1 adj_add_def adj_at_def)
  have d: "edges (snd (addOrUpdateEdge (snd (addOrUpdateEdge ?G 0 1 (Date 2015))) 1 0 Invalid_Date)) = [(0, 1, Date 2015)]"
    by (simp add: two_nodes_AB addOrUpdateEdge_def pair_key_0_1 adj_add_def adj_at_def)
  from r l0 l1 ne a b c d show ?thesis by blast
qed

text \<open>
  Claim C3 as stated fails where the pair already has an edge with an earlier date. After
  \<open>addFriendGroup(["A", "B"], 2015)\<close> on the empty graph, \<open>addOrUpdateEdge(0, 1, 2020)\<close>
  and \<open>addOrUpdateEdge(1, 0, 2018)\<close> leave the single edge \<open>(0, 1, 2015)\<close>, whose date is
  not \<open>min(2020, 2018)\<close>. It also fails for an Invalid Date, which has no minimum with
  another date: on the graph of the two nodes A and B, an Invalid Date followed by 2015
  leaves the Invalid Date, and 2015 followed by an Invalid Date leaves 2015.
\<close>

theorem addOrUpdateEdge_twice_keeps_earlier_date:
  "reachable (snd (addFriendGroup Graph_new [''A'', ''B''] (Date 2015)))
   \<and> live (snd (addFriendGroup Graph_new [''A'', ''B''] (Date 2015))) 0
   \<and> live (snd (addFriendGroup Graph_new [''A'', ''B''] (Date 2015))) 1
   \<and> edges (snd (addOrUpdateEdge (snd (addOrUpdateEdge
        (snd (addFriendGroup Graph_new [''A'', ''B''] (Date 2015))) 0 1 (Date 2020))) 1 0 (Date 2018)))
       = [(0, 1, Date 2015)]
   \<and> min (2020::int) 2018 \<noteq> 2015
   \<and> edges (snd (addOrUpdateEdge (snd (addOrUpdateEdge
        (snd (getOrCreateNodeIndex (snd (getOrCreateNodeIndex Graph_new ''A'')) ''B''))
        0 1 Invalid_Date)) 1 0 (Date 2015))) = [(0, 1, Invalid_Date)]
   \<and> edges (snd (addOrUpdateEdge (snd (addOrUpdateEdge
        (snd (getOrCreateNodeIndex (snd (getOrCreateNodeIndex Graph_new ''A'')) ''B''))
        0 1 (Date 2015))) 1 0 Invalid_Date)) = [(0, 1, Date 2015)]"
proof -
  let ?G = "snd (addFriendGroup Graph_new [''A'', ''B''] (Date 2015))"
  let ?N = "snd (getOrCreateNodeIndex (snd (getOrCreateNodeIndex Graph_new ''A'')) ''B'')"
  have r: "reachable ?G" by (rule r_addFriendGroup[OF r_new])
  have l0: "live ?G 0" by (simp add: addFriendGroup_AB live_def slot_at_def)
  have l1: "live ?G 1" by (simp add: addFriendGroup_AB live_def slot_at_def)
  have b: "edges (snd (addOrUpdateEdge (snd (addOrUpdateEdge ?G 0 1 (Date 2020))) 1 0 (Date 2018))) = [(0, 1, Date 2015)]"
    by (simp add: addFriendGroup_AB addOrUpdateEdge_def pair_key_0_1)
  have m: "min (2020::int) 2018 \<noteq> 2015" by simp
  have c: "edges (snd (addOrUpdateEdge (snd (addOrUpdateEdge ?N 0 1 Invalid_Date)) 1 0 (Date 2015))) = [(0, 1, Invalid_Date)]"
    by (simp add: two_nodes_AB addOrUpdateEdge_def pair_key_0_1 adj_add_def adj_at_def)
  have d: "edges (snd (addOrUpdateEdge (snd (addOrUpdateEdge ?N 0 1 (Date 2015))) 1 0 Invalid_Date)) = [(0, 1, Date 2015)]"
    by (simp add: two_nodes_AB addOrUpdateEdge_def pair_key_0_1 adj_add_def adj_at_def)
  from r l0 l1 b m c d show ?thesis by blast
qed

subsection \<open>Looking a name up, or creating its node\<close>

lemma find_name_found:
  "i < length ss \<Longrightarrow> named nm (ss ! i) \<Longrightarrow> \<forall>m < i. \<not> named nm (ss ! m) \<and> ss ! m \<noteq> Hole \<Longrightarrow>
   find_name ss nm k = Inr (Some (k + i))"
proof (induction ss nm k arbitrary: i rule: find_name.induct)
  case (1 nm idx)
  then show ?case by simp
next
  case (2 ss nm idx)
  then show ?case by (cases i) (auto simp: named_def)
next
  case (3 ss nm k)
  show ?case
  proof (cases i)
    case 0
    with 3(3) show ?thesis by (simp add: named_def)
  next
    case (Suc i')
    have "find_name ss nm (Suc k) = Inr (Some (Suc k + i'))"
      using 3(2,3,4) Suc by (intro 3(1)) auto
    then show ?thesis using Suc by simp
  qed
next
  case (4 n ss nm k)
  show ?case
  proof (cases i)
    case 0
    with 4(3) show ?thesis by (simp add: named_def)
  next
    case (Suc i')
    have nn: "name n \<noteq> nm" using 4(4) Suc by (auto simp: named_def)
    have "find_name ss nm (Suc k) = Inr (Some (Suc k + i'))"
      using 4(2,3,4) Suc nn by (intro 4(1)) auto
    then show ?thesis using Suc nn by simp
  qed
qed

lemma find_name_none:
  "\<forall>s \<in> set ss. \<not> named nm s \<and> s \<noteq> Hole \<Longrightarrow> find_name ss nm k = Inr None"
  by (induction ss nm k rule: find_name.induct) (auto simp: named_def)

lemma find_free_found:
  "i < length ss \<Longrightarrow> ss ! i = Free \<Longrightarrow> \<forall>m < i. ss ! m \<noteq> Free \<Longrightarrow> find_free ss k = Some (k + i)"
proof (induction ss arbitrary: i k)
  case Nil
  then show ?case by simp
next
  case (Cons s ss)
  show ?case
  proof (cases i)
    case 0
    with Cons.prems show ?thesis by simp
  next
    case (Suc i')
    have "s \<noteq> Free" using Cons.prems(3) Suc by auto
    moreover have "find_free ss (Suc k) = Some (Suc k + i')"
      using Cons.prems Suc by (intro Cons.IH) auto
    ultimately show ?thesis using Suc by simp
  qed
qed

lemma find_free_none: "Free \<notin> set ss \<Longrightarrow> find_free ss k = None"
  by (induction ss arbitrary: k) auto

lemma find_name_cong:
  "map (\<lambda>s. (s = Hole, named nm s)) ss = map (\<lambda>s. (s = Hole, named nm s)) ss' \<Longrightarrow>
   find_name ss nm k = find_name ss' nm k"
proof (induction ss nm k arbitrary: ss' rule: find_name.induct)
  case (1 nm idx)
  then show ?case by simp
next
  case (2 ss nm idx)
  then obtain t ts where "ss' = t # ts" "t = Hole" by (cases ss') auto
  then show ?case by simp
next
  case (3 ss nm k)
  then obtain t ts where t: "ss' = t # ts" "t \<noteq> Hole" "\<not> named nm t"
    "map (\<lambda>s. (s = Hole, named nm s)) ss = map (\<lambda>s. (s = Hole, named nm s)) ts"
    by (cases ss') (auto simp: named_def)
  from 3(1)[OF t(4)] t(1,2,3) show ?case by (cases t) (auto simp: named_def)
next
  case (4 n ss nm k)
  then obtain t ts where t: "ss' = t # ts" "t \<noteq> Hole" "named nm t = (name n = nm)"
    "map (\<lambda>s. (s = Hole, named nm s)) ss = map (\<lambda>s. (s = Hole, named nm s)) ts"
    by (cases ss') (auto simp: named_def)
  show ?case
  proof (cases "name n = nm")
    case True
    with t(1,2,3) show ?thesis by (cases t) (auto simp: named_def)
  next
    case False
    from 4(1)[OF False t(4)] False t(1,2,3) show ?thesis by (cases t) (auto simp: named_def)
  qed
qed

lemma find_name_append:
  "find_name ss nm k = Inr (Some i) \<Longrightarrow> find_name (ss @ ts) nm k = Inr (Some i)"
  by (induction ss nm k rule: find_name.induct) (auto split: if_splits)

lemma adj_add_nodes: "adj_add g a b = Some g' \<Longrightarrow> nodes g' = nodes g"
  by (auto simp: adj_add_def split: option.splits)

lemma rebuild_loop_nodes: "nodes (snd (rebuild_loop g e rest)) = nodes g"
proof (induction rest arbitrary: g e)
  case Nil
  then show ?case by simp
next
  case (Cons ed rest)
  obtain a b d where ed: "ed = (a, b, d)" by (cases ed) auto
  let ?g1 = "g\<lparr> pairToEdgeIndex := (pairToEdgeIndex g)(pair_key a b \<mapsto> e) \<rparr>"
  show ?case
  proof (cases "adj_add ?g1 a b")
    case None
    then show ?thesis by (simp add: ed)
  next
    case (Some g2)
    have n2: "nodes g2 = nodes g" using adj_add_nodes[OF Some] by simp
    show ?thesis
    proof (cases "adj_add g2 b a")
      case None
      then show ?thesis using Some n2 by (simp add: ed)
    next
      case S3: (Some g3)
      have "nodes g3 = nodes g" using adj_add_nodes[OF S3] n2 by simp
      then show ?thesis using Some S3 Cons.IH[of g3 "Suc e"] by (simp add: ed)
    qed
  qed
qed

lemma deleteNode_nodes:
  "nodes (snd (deleteNode g j)) =
     (if slot_at g j = Free then nodes g else js_set Hole (nodes g) j Free)"
proof (cases "slot_at g j = Free")
  case True
  then show ?thesis by (simp add: deleteNode_def)
next
  case False
  let ?g2 = "g\<lparr> nodes := js_set Hole (nodes g) j Free, adj := js_set None (adj g) j (Some {}),
                edges := filter (\<lambda>e. \<not> incident j e) (edges g) \<rparr>"
  obtain r g3 where r: "rebuildEdgeIndex ?g2 = (r, g3)" by (cases "rebuildEdgeIndex ?g2")
  have "nodes (snd (rebuildEdgeIndex ?g2)) = nodes ?g2"
    unfolding rebuildEdgeIndex_def by (simp add: rebuild_loop_nodes)
  then have n3: "nodes g3 = js_set Hole (nodes g) j Free" using r by simp
  have "snd (deleteNode g j) = g3"
    using False r by (cases r) (simp_all add: deleteNode_def Let_def)
  then show ?thesis using False n3 by simp
qed

lemma getOrCreate_nodes_cases:
  "nodes (snd (getOrCreateNodeIndex g nm')) = nodes g
   \<or> (\<exists>idx < length (nodes g). nodes g ! idx = Free
         \<and> nodes (snd (getOrCreateNodeIndex g nm')) = (nodes g)[idx := Live (new_Node nm')])
   \<or> nodes (snd (getOrCreateNodeIndex g nm')) = nodes g @ [Live (new_Node nm')]"
proof (cases "find_name (nodes g) nm' 0")
  case (Inl e)
  then show ?thesis by (simp add: getOrCreateNodeIndex_def)
next
  case (Inr o1)
  show ?thesis
  proof (cases o1)
    case (Some k)
    then show ?thesis using Inr by (simp add: getOrCreateNodeIndex_def)
  next
    case None
    show ?thesis
    proof (cases "find_free (nodes g) 0")
      case N: None
      then show ?thesis using Inr None by (simp add: getOrCreateNodeIndex_def)
    next
      case (Some idx)
      from find_free_0[OF this] have "idx < length (nodes g)" "nodes g ! idx = Free" by auto
      then show ?thesis using Inr None Some by (auto simp: getOrCreateNodeIndex_def)
    qed
  qed
qed

lemma replace_unnamed:
  assumes "idx < length ss" "ss ! idx \<noteq> Hole" "\<not> named nm (ss ! idx)" "t \<noteq> Hole" "\<not> named nm t"
  shows "find_name (ss[idx := t]) nm k = find_name ss nm k"
proof (rule find_name_cong)
  show "map (\<lambda>s. (s = Hole, named nm s)) (ss[idx := t]) = map (\<lambda>s. (s = Hole, named nm s)) ss"
    using assms by (simp add: map_update list_update_same_conv)
qed

lemma unrelated_keeps:
  assumes "unrelated nm g g'" "Hole \<notin> set (nodes g)"
  shows "Hole \<notin> set (nodes g')
    \<and> (\<forall>i. find_name (nodes g) nm 0 = Inr (Some i) \<longrightarrow> find_name (nodes g') nm 0 = Inr (Some i))"
  using assms
proof (induction rule: unrelated.induct)
  case (u_none g)
  then show ?case by simp
next
  case (u_create g g1 nm')
  then have nh: "Hole \<notin> set (nodes g1)"
    and fn: "\<And>i. find_name (nodes g) nm 0 = Inr (Some i) \<Longrightarrow> find_name (nodes g1) nm 0 = Inr (Some i)"
    by auto
  let ?g2 = "snd (getOrCreateNodeIndex g1 nm')"
  have un: "\<not> named nm (Live (new_Node nm'))" using u_create.hyps(2) by (simp add: named_def new_Node_def)
  from getOrCreate_nodes_cases[of g1 nm'] show ?case
  proof (elim disjE exE conjE)
    assume "nodes ?g2 = nodes g1"
    then show ?thesis using nh fn by simp
  next
    fix idx assume idx: "idx < length (nodes g1)" "nodes g1 ! idx = Free"
      and n2: "nodes ?g2 = (nodes g1)[idx := Live (new_Node nm')]"
    have "set (nodes ?g2) \<subseteq> insert (Live (new_Node nm')) (set (nodes g1))"
      unfolding n2 by (rule set_update_subset_insert)
    then have h: "Hole \<notin> set (nodes ?g2)" using nh by auto
    have "find_name (nodes ?g2) nm 0 = find_name (nodes g1) nm 0"
      unfolding n2 using idx un by (intro replace_unnamed) (simp_all add: named_def)
    then show ?thesis using h fn by simp
  next
    assume n2: "nodes ?g2 = nodes g1 @ [Live (new_Node nm')]"
    then have h: "Hole \<notin> set (nodes ?g2)" using nh by simp
    show ?thesis using h fn find_name_append[of "nodes g1" nm 0] n2 by simp
  qed
next
  case (u_delete g g1 j)
  then have nh: "Hole \<notin> set (nodes g1)"
    and fn: "\<And>i. find_name (nodes g) nm 0 = Inr (Some i) \<Longrightarrow> find_name (nodes g1) nm 0 = Inr (Some i)"
    by auto
  let ?g2 = "snd (deleteNode g1 j)"
  show ?case
  proof (cases "slot_at g1 j = Free")
    case True
    then have "nodes ?g2 = nodes g1" by (simp add: deleteNode_nodes)
    then show ?thesis using nh fn by simp
  next
    case False
    then have n2: "nodes ?g2 = (nodes g1)[j := Free]"
      using u_delete.hyps(2) by (simp add: deleteNode_nodes js_set_def)
    have "set (nodes ?g2) \<subseteq> insert Free (set (nodes g1))"
      unfolding n2 by (rule set_update_subset_insert)
    then have h: "Hole \<notin> set (nodes ?g2)" using nh by auto
    have "nodes g1 ! j \<noteq> Hole" using nh u_delete.hyps(2) by (metis nth_mem)
    then have "find_name (nodes ?g2) nm 0 = find_name (nodes g1) nm 0"
      unfolding n2 using u_delete.hyps(2,3) by (intro replace_unnamed) (simp_all add: named_def)
    then show ?thesis using h fn by simp
  qed
qed

lemma lowest_named:
  assumes "m < length ss" "named nm (ss ! m)"
  shows "\<exists>i \<le> m. named nm (ss ! i) \<and> (\<forall>k < i. \<not> named nm (ss ! k))"
proof -
  let ?i = "LEAST i. named nm (ss ! i)"
  have "named nm (ss ! ?i)" using assms(2) by (rule LeastI)
  moreover have "?i \<le> m" using assms(2) by (rule Least_le)
  moreover have "\<forall>k < ?i. \<not> named nm (ss ! k)" using not_less_Least by blast
  ultimately show ?thesis by blast
qed

lemma find_name_hole:
  "h < length ss \<Longrightarrow> ss ! h = Hole \<Longrightarrow> \<forall>m < h. \<not> named nm (ss ! m) \<Longrightarrow>
   find_name ss nm k = Inl TypeError"
proof (induction ss nm k arbitrary: h rule: find_name.induct)
  case (1 nm idx)
  then show ?case by simp
next
  case (2 ss nm idx)
  then show ?case by simp
next
  case (3 ss nm k)
  show ?case
  proof (cases h)
    case 0
    with 3(3) show ?thesis by simp
  next
    case (Suc h')
    have "find_name ss nm (Suc k) = Inl TypeError"
      using 3(2,3,4) Suc by (intro 3(1)[of h']) auto
    then show ?thesis by simp
  qed
next
  case (4 n ss nm k)
  show ?case
  proof (cases h)
    case 0
    with 4(3) show ?thesis by simp
  next
    case (Suc h')
    have nn: "name n \<noteq> nm" using 4(4) Suc by (auto simp: named_def)
    have "find_name ss nm (Suc k) = Inl TypeError"
      using 4(2,3,4) Suc nn by (intro 4(1)[of h']) auto
    then show ?thesis using nn by simp
  qed
qed

lemma deleteNode_AB_0:
  "snd (deleteNode (snd (addFriendGroup Graph_new [''A'', ''B''] (Date 2020))) 0) =
     \<lparr> nodes = [Free, Live (new_Node ''B'')], edges = [],
       pairToEdgeIndex = Map.empty, adj = [Some {}, Some {}] \<rparr>"
  by (simp add: addFriendGroup_AB deleteNode_def slot_at_def js_set_def incident_def
      rebuildEdgeIndex_def)

lemma deleteNode_AB_4:
  "snd (deleteNode (snd (addFriendGroup Graph_new [''A'', ''B''] (Date 2020))) 4) =
     \<lparr> nodes = [Live (new_Node ''A''), Live (new_Node ''B''), Hole, Hole, Free],
       edges = [(0, 1, Date 2020)],
       pairToEdgeIndex = [''0:1'' \<mapsto> 0],
       adj = [Some {1}, Some {0}, Some {}, Some {}, Some {}] \<rparr>"
  by (simp add: addFriendGroup_AB deleteNode_def slot_at_def js_set_def incident_def
      rebuildEdgeIndex_def adj_add_def adj_at_def pair_key_0_1 numeral_2_eq_2)

text \<open>
  Claim C4, as amended. For every graph state and every name. The first loop of
  \<open>getOrCreateNodeIndex(name)\<close> reads \<open>n.name\<close> of every slot that is not \<open>null\<close>, so it
  stops at the first slot that holds a node of that name or is \<open>undefined\<close>, whichever comes
  first: if the lowest slot holding a node with that name has no \<open>undefined\<close> slot before
  it, the call returns that index and changes nothing; if some slot is \<open>undefined\<close> and no
  slot before it holds a node with that name, the call throws a \<open>TypeError\<close> and changes
  nothing, also when a free slot exists. On a state none of whose slots is \<open>undefined\<close>: if
  no slot holds a node with that name and some slot is free, the call creates the node in
  the lowest free slot (with a fresh, empty adjacency set) and returns that index; if no
  slot holds such a node and none is free, it appends a new slot and returns the previous
  length; and a name that is live resolves to the same index, with no change of state,
  after any number of lookups or creations of other names and deletions of slots not
  holding that name.
\<close>

theorem getOrCreateNodeIndex_lowest_or_new:
  "(\<forall>i < length (nodes g).
       named nm (nodes g ! i) \<and> (\<forall>m < i. \<not> named nm (nodes g ! m) \<and> nodes g ! m \<noteq> Hole) \<longrightarrow>
         getOrCreateNodeIndex g nm = (Inr i, g))
    \<and> (\<forall>h < length (nodes g). nodes g ! h = Hole \<and> (\<forall>m < h. \<not> named nm (nodes g ! m)) \<longrightarrow>
          getOrCreateNodeIndex g nm = (Inl TypeError, g))
    \<and> (Hole \<notin> set (nodes g) \<longrightarrow>
         ((\<forall>m < length (nodes g). \<not> named nm (nodes g ! m)) \<longrightarrow>
            (\<forall>i < length (nodes g). nodes g ! i = Free \<and> (\<forall>m < i. nodes g ! m \<noteq> Free) \<longrightarrow>
               getOrCreateNodeIndex g nm =
                 (Inr i, g\<lparr> nodes := (nodes g)[i := Live (new_Node nm)],
                            adj := js_set None (adj g) i (Some {}) \<rparr>))
            \<and> (Free \<notin> set (nodes g) \<longrightarrow>
                 getOrCreateNodeIndex g nm =
                   (Inr (length (nodes g)),
                    g\<lparr> nodes := nodes g @ [Live (new_Node nm)], adj := adj g @ [Some {}] \<rparr>)))
         \<and> (\<forall>g'. (\<exists>m < length (nodes g). named nm (nodes g ! m)) \<and> unrelated nm g g' \<longrightarrow>
               getOrCreateNodeIndex g' nm = (fst (getOrCreateNodeIndex g nm), g')))"
proof (intro conjI allI impI)
  fix i assume "i < length (nodes g)"
    and "named nm (nodes g ! i) \<and> (\<forall>m < i. \<not> named nm (nodes g ! m) \<and> nodes g ! m \<noteq> Hole)"
  then have "find_name (nodes g) nm 0 = Inr (Some (0 + i))"
    by (intro find_name_found) auto
  then show "getOrCreateNodeIndex g nm = (Inr i, g)" by (simp add: getOrCreateNodeIndex_def)
next
  fix h assume "h < length (nodes g)"
    and "nodes g ! h = Hole \<and> (\<forall>m < h. \<not> named nm (nodes g ! m))"
  then have "find_name (nodes g) nm 0 = Inl TypeError"
    by (intro find_name_hole[of h]) auto
  then show "getOrCreateNodeIndex g nm = (Inl TypeError, g)"
    by (simp add: getOrCreateNodeIndex_def)
next
  assume nh: "Hole \<notin> set (nodes g)"
    and no: "\<forall>m < length (nodes g). \<not> named nm (nodes g ! m)"
  have fn: "find_name (nodes g) nm 0 = Inr None"
    using no nh by (intro find_name_none) (auto simp: in_set_conv_nth)
  {
    fix i assume "i < length (nodes g)" "nodes g ! i = Free \<and> (\<forall>m < i. nodes g ! m \<noteq> Free)"
    then have "find_free (nodes g) 0 = Some (0 + i)" by (intro find_free_found) auto
    then show "getOrCreateNodeIndex g nm =
              (Inr i, g\<lparr> nodes := (nodes g)[i := Live (new_Node nm)],
                         adj := js_set None (adj g) i (Some {}) \<rparr>)"
      using fn by (simp add: getOrCreateNodeIndex_def)
  next
    assume "Free \<notin> set (nodes g)"
    then have "find_free (nodes g) 0 = None" by (rule find_free_none)
    then show "getOrCreateNodeIndex g nm =
                (Inr (length (nodes g)),
                 g\<lparr> nodes := nodes g @ [Live (new_Node nm)], adj := adj g @ [Some {}] \<rparr>)"
      using fn by (simp add: getOrCreateNodeIndex_def)
  }
next
  fix g' assume nh: "Hole \<notin> set (nodes g)"
    and a: "(\<exists>m < length (nodes g). named nm (nodes g ! m)) \<and> unrelated nm g g'"
  then obtain m where m: "m < length (nodes g)" "named nm (nodes g ! m)" by blast
  from lowest_named[OF this] obtain i where i: "i \<le> m" "named nm (nodes g ! i)"
    "\<forall>k < i. \<not> named nm (nodes g ! k)" by blast
  have "find_name (nodes g) nm 0 = Inr (Some (0 + i))"
    using i m(1) nh by (intro find_name_found) (auto simp: in_set_conv_nth)
  then have f: "find_name (nodes g) nm 0 = Inr (Some i)" by simp
  then have f': "find_name (nodes g') nm 0 = Inr (Some i)"
    using unrelated_keeps[OF _ nh, of nm g'] a by blast
  show "getOrCreateNodeIndex g' nm = (fst (getOrCreateNodeIndex g nm), g')"
    using f f' by (simp add: getOrCreateNodeIndex_def)
qed

text \<open>
  The theorem at the graph left by \<open>addFriendGroup(["A", "B"], 2020)\<close> and
  \<open>deleteNode(0)\<close>, whose slots are \<open>null\<close> and the node B: the name B resolves to index 1,
  the new name C takes the free slot 0, and B still resolves to index 1 afterwards; at
  the graph before the deletion, where C is appended at index 2; and at the graph left by
  \<open>addFriendGroup(["A", "B"], 2020)\<close> and \<open>deleteNode(4)\<close>, whose slots 2 and 3 are
  \<open>undefined\<close>: B, found before them, resolves to index 1, and the lookup of D throws.
\<close>

theorem getOrCreateNodeIndex_lowest_or_new_witness:
  "Hole \<notin> set (nodes (snd (deleteNode (snd (addFriendGroup Graph_new [''A'', ''B''] (Date 2020))) 0)))
   \<and> getOrCreateNodeIndex (snd (deleteNode (snd (addFriendGroup Graph_new [''A'', ''B''] (Date 2020))) 0)) ''B''
       = (Inr 1, snd (deleteNode (snd (addFriendGroup Graph_new [''A'', ''B''] (Date 2020))) 0))
   \<and> fst (getOrCreateNodeIndex (snd (deleteNode (snd (addFriendGroup Graph_new [''A'', ''B''] (Date 2020))) 0)) ''C'')
       = Inr 0
   \<and> unrelated ''B'' (snd (deleteNode (snd (addFriendGroup Graph_new [''A'', ''B''] (Date 2020))) 0))
        (snd (getOrCreateNodeIndex (snd (deleteNode (snd (addFriendGroup Graph_new [''A'', ''B''] (Date 2020))) 0)) ''C''))
   \<and> fst (getOrCreateNodeIndex
        (snd (getOrCreateNodeIndex (snd (deleteNode (snd (addFriendGroup Graph_new [''A'', ''B''] (Date 2020))) 0)) ''C''))
        ''B'') = Inr 1
   \<and> Hole \<notin> set (nodes (snd (addFriendGroup Graph_new [''A'', ''B''] (Date 2020))))
   \<and> fst (getOrCreateNodeIndex (snd (addFriendGroup Graph_new [''A'', ''B''] (Date 2020))) ''C'') = Inr 2
   \<and> nodes (snd (deleteNode (snd (addFriendGroup Graph_new [''A'', ''B''] (Date 2020))) 4)) ! 2 = Hole
   \<and> getOrCreateNodeIndex (snd (deleteNode (snd (addFriendGroup Graph_new [''A'', ''B''] (Date 2020))) 4)) ''B''
       = (Inr 1, snd (deleteNode (snd (addFriendGroup Graph_new [''A'', ''B''] (Date 2020))) 4))
   \<and> getOrCreateNodeIndex (snd (deleteNode (snd (addFriendGroup Graph_new [''A'', ''B''] (Date 2020))) 4)) ''D''
       = (Inl TypeError, snd (deleteNode (snd (addFriendGroup Graph_new [''A'', ''B''] (Date 2020))) 4))"
proof -
  let ?AB = "snd (addFriendGroup Graph_new [''A'', ''B''] (Date 2020))"
  let ?G = "snd (deleteNode ?AB 0)"
  let ?G' = "snd (getOrCreateNodeIndex ?G ''C'')"
  let ?H = "snd (deleteNode ?AB 4)"
  have nh: "Hole \<notin> set (nodes ?G)" by (simp add: deleteNode_AB_0)
  note TB = getOrCreateNodeIndex_lowest_or_new[of ?G "''B''"]
  note TC = getOrCreateNodeIndex_lowest_or_new[of ?G "''C''"]
  have b0: "(1::nat) < length (nodes ?G)" by (simp add: deleteNode_AB_0)
  have b1: "named ''B'' (nodes ?G ! 1)
      \<and> (\<forall>m < 1. \<not> named ''B'' (nodes ?G ! m) \<and> nodes ?G ! m \<noteq> Hole)"
    by (simp add: deleteNode_AB_0 named_def new_Node_def)
  have w1: "getOrCreateNodeIndex ?G ''B'' = (Inr 1, ?G)"
    by (rule TB[THEN conjunct1, THEN spec, THEN mp, OF b0, THEN mp, OF b1])
  have c0: "\<forall>m < length (nodes ?G). \<not> named ''C'' (nodes ?G ! m)"
    by (simp add: deleteNode_AB_0 named_def new_Node_def less_Suc_eq)
  have c1: "(0::nat) < length (nodes ?G)" by (simp add: deleteNode_AB_0)
  have c2: "nodes ?G ! 0 = Free \<and> (\<forall>m < 0. nodes ?G ! m \<noteq> Free)"
    by (simp add: deleteNode_AB_0)
  have w2: "fst (getOrCreateNodeIndex ?G ''C'') = Inr 0"
    using TC[THEN conjunct2, THEN conjunct2, THEN mp, OF nh, THEN conjunct1, THEN mp, OF c0,
        THEN conjunct1, THEN spec, THEN mp, OF c1, THEN mp, OF c2]
    by simp
  have u: "unrelated ''B'' ?G ?G'" by (rule u_create[OF u_none]) simp
  have ex: "(\<exists>m < length (nodes ?G). named ''B'' (nodes ?G ! m)) \<and> unrelated ''B'' ?G ?G'"
    using b0 b1 u by blast
  have "getOrCreateNodeIndex ?G' ''B'' = (fst (getOrCreateNodeIndex ?G ''B''), ?G')"
    by (rule TB[THEN conjunct2, THEN conjunct2, THEN mp, OF nh, THEN conjunct2, THEN spec,
          THEN mp, OF ex])
  then have w3: "fst (getOrCreateNodeIndex ?G' ''B'') = Inr 1" using w1 by simp
  have nh2: "Hole \<notin> set (nodes ?AB)" by (simp add: addFriendGroup_AB)
  note TA = getOrCreateNodeIndex_lowest_or_new[of ?AB "''C''"]
  have a0: "\<forall>m < length (nodes ?AB). \<not> named ''C'' (nodes ?AB ! m)"
    by (simp add: addFriendGroup_AB named_def new_Node_def less_Suc_eq)
  have a1: "Free \<notin> set (nodes ?AB)" by (simp add: addFriendGroup_AB)
  have "fst (getOrCreateNodeIndex ?AB ''C'') = Inr (length (nodes ?AB))"
    using TA[THEN conjunct2, THEN conjunct2, THEN mp, OF nh2, THEN conjunct1, THEN mp, OF a0,
        THEN conjunct2, THEN mp, OF a1]
    by simp
  then have w4: "fst (getOrCreateNodeIndex ?AB ''C'') = Inr 2" by (simp add: addFriendGroup_AB)
  note HB = getOrCreateNodeIndex_lowest_or_new[of ?H "''B''"]
  note HD = getOrCreateNodeIndex_lowest_or_new[of ?H "''D''"]
  have h0: "(1::nat) < length (nodes ?H)" by (simp add: deleteNode_AB_4)
  have h1: "named ''B'' (nodes ?H ! 1)
      \<and> (\<forall>m < 1. \<not> named ''B'' (nodes ?H ! m) \<and> nodes ?H ! m \<noteq> Hole)"
    by (simp add: deleteNode_AB_4 named_def new_Node_def)
  have w5: "getOrCreateNodeIndex ?H ''B'' = (Inr 1, ?H)"
    by (rule HB[THEN conjunct1, THEN spec, THEN mp, OF h0, THEN mp, OF h1])
  have d0: "(2::nat) < length (nodes ?H)" by (simp add: deleteNode_AB_4)
  have d1: "nodes ?H ! 2 = Hole" by (simp add: deleteNode_AB_4)
  have d2: "\<forall>m < 2. \<not> named ''D'' (nodes ?H ! m)"
    by (simp add: deleteNode_AB_4 named_def new_Node_def less_Suc_eq numeral_2_eq_2)
  have d3: "nodes ?H ! 2 = Hole \<and> (\<forall>m < 2. \<not> named ''D'' (nodes ?H ! m))"
    using d1 d2 by blast
  have w6: "getOrCreateNodeIndex ?H ''D'' = (Inl TypeError, ?H)"
    by (rule HD[THEN conjunct2, THEN conjunct1, THEN spec, THEN mp, OF d0, THEN mp, OF d3])
  from nh w1 w2 u w3 nh2 w4 d1 w5 w6 show ?thesis by blast
qed

text \<open>
  Claim C4 as stated ("otherwise, if at least one free slot exists, it creates the node
  in the lowest-index free slot") fails on a state with an \<open>undefined\<close> slot. After
  \<open>addFriendGroup(["A", "B"], 2020)\<close> and \<open>deleteNode(4)\<close> the slots are A, B, \<open>undefined\<close>,
  \<open>undefined\<close>, \<open>null\<close>: no slot holds a node named C and slot 4 is free, yet
  \<open>getOrCreateNodeIndex("C")\<close> throws a \<open>TypeError\<close> at \<open>n.name\<close> of slot 2 and creates nothing.
\<close>

theorem getOrCreateNodeIndex_throws_at_undefined_slot:
  "reachable (snd (deleteNode (snd (addFriendGroup Graph_new [''A'', ''B''] (Date 2020))) 4))
   \<and> nodes (snd (deleteNode (snd (addFriendGroup Graph_new [''A'', ''B''] (Date 2020))) 4))
       = [Live (new_Node ''A''), Live (new_Node ''B''), Hole, Hole, Free]
   \<and> filter (named ''C'')
        (nodes (snd (deleteNode (snd (addFriendGroup Graph_new [''A'', ''B''] (Date 2020))) 4))) = []
   \<and> isFree (snd (deleteNode (snd (addFriendGroup Graph_new [''A'', ''B''] (Date 2020))) 4)) 4
   \<and> getOrCreateNodeIndex
        (snd (deleteNode (snd (addFriendGroup Graph_new [''A'', ''B''] (Date 2020))) 4)) ''C''
       = (Inl TypeError,
          snd (deleteNode (snd (addFriendGroup Graph_new [''A'', ''B''] (Date 2020))) 4))"
proof -
  let ?G = "snd (deleteNode (snd (addFriendGroup Graph_new [''A'', ''B''] (Date 2020))) 4)"
  have r: "reachable ?G" by (intro r_deleteNode r_addFriendGroup r_new)
  have n: "nodes ?G = [Live (new_Node ''A''), Live (new_Node ''B''), Hole, Hole, Free]"
    by (simp add: deleteNode_AB_4)
  have c: "filter (named ''C'') (nodes ?G) = []"
    unfolding n by (simp add: named_def new_Node_def)
  have f: "isFree ?G 4" by (simp add: isFree_def slot_at_def n)
  have "find_name (nodes ?G) ''C'' 0 = Inl TypeError"
    unfolding n by (simp add: new_Node_def)
  then have t: "getOrCreateNodeIndex ?G ''C'' = (Inl TypeError, ?G)"
    by (simp add: getOrCreateNodeIndex_def)
  from r n c f t show ?thesis by blast
qed

subsection \<open>Calls that throw\<close>

lemma getOrCreate_throw: "fst (getOrCreateNodeIndex g nm) = Inl e \<Longrightarrow> snd (getOrCreateNodeIndex g nm) = g"
  by (auto simp: getOrCreateNodeIndex_def split: sum.splits option.splits)

lemma renameNode_throw: "fst (renameNode g i nm) = Inl e \<Longrightarrow> snd (renameNode g i nm) = g"
  by (auto simp: renameNode_def split: slot.splits)

lemma update_throw: "fst (update g t) = Inl e \<Longrightarrow> snd (update g t) = g"
  using update_frame[of g t] by auto

lemma adj_add_frame:
  "adj_add g a b = Some g' \<Longrightarrow>
   nodes g' = nodes g \<and> edges g' = edges g \<and> pairToEdgeIndex g' = pairToEdgeIndex g"
  by (auto simp: adj_add_def split: option.splits)

lemma inv_sound: "inv g \<Longrightarrow> sound g"
  by (auto simp: inv_def sound_def pairs_def)

lemma sound_new: "sound Graph_new"
  by (simp add: sound_def Graph_new_def all_sets_def)

lemma find_name_None_no_hole: "find_name ss nm k = Inr None \<Longrightarrow> Hole \<notin> set ss"
  by (induction ss nm k rule: find_name.induct) (auto split: if_splits)

lemma find_name_no_hole: "Hole \<notin> set ss \<Longrightarrow> find_name ss nm k \<noteq> Inl e"
  by (induction ss nm k rule: find_name.induct) auto

lemma getOrCreate_changed:
  "snd (getOrCreateNodeIndex g nm) = g \<or> Hole \<notin> set (nodes (snd (getOrCreateNodeIndex g nm)))"
proof (cases "find_name (nodes g) nm 0")
  case (Inl e)
  then show ?thesis by (simp add: getOrCreateNodeIndex_def)
next
  case (Inr o1)
  show ?thesis
  proof (cases o1)
    case (Some k)
    with Inr show ?thesis by (simp add: getOrCreateNodeIndex_def)
  next
    case None
    with Inr have nh: "Hole \<notin> set (nodes g)" using find_name_None_no_hole by blast
    show ?thesis
    proof (cases "find_free (nodes g) 0")
      case N: None
      with Inr None nh show ?thesis by (simp add: getOrCreateNodeIndex_def)
    next
      case (Some k)
      have "set ((nodes g)[k := Live (new_Node nm)]) \<subseteq> insert (Live (new_Node nm)) (set (nodes g))"
        by (rule set_update_subset_insert)
      then have "Hole \<notin> set ((nodes g)[k := Live (new_Node nm)])" using nh by auto
      with Inr None Some show ?thesis by (simp add: getOrCreateNodeIndex_def)
    qed
  qed
qed

lemma getOrCreate_no_hole:
  assumes "Hole \<notin> set (nodes g)"
  shows "(\<exists>idx. fst (getOrCreateNodeIndex g nm) = Inr idx)
    \<and> Hole \<notin> set (nodes (snd (getOrCreateNodeIndex g nm)))"
proof -
  have "\<exists>idx. fst (getOrCreateNodeIndex g nm) = Inr idx"
    using find_name_no_hole[OF assms, of nm 0]
    by (auto simp: getOrCreateNodeIndex_def split: sum.splits option.splits)
  moreover have "Hole \<notin> set (nodes (snd (getOrCreateNodeIndex g nm)))"
    using getOrCreate_changed[of g nm] assms by auto
  ultimately show ?thesis by blast
qed

lemma resolve_names_no_hole:
  "Hole \<notin> set (nodes g) \<Longrightarrow> \<exists>idxs. fst (resolve_names g nms) = Inr idxs"
proof (induction nms arbitrary: g)
  case Nil
  then show ?case by simp
next
  case (Cons nm nms)
  from getOrCreate_no_hole[OF Cons.prems, of nm] obtain idx where
    r: "fst (getOrCreateNodeIndex g nm) = Inr idx"
    and nh: "Hole \<notin> set (nodes (snd (getOrCreateNodeIndex g nm)))" by blast
  from Cons.IH[OF nh] obtain idxs where
    "fst (resolve_names (snd (getOrCreateNodeIndex g nm)) nms) = Inr idxs" by blast
  then show ?case using r
    by (cases "getOrCreateNodeIndex g nm";
        cases "resolve_names (snd (getOrCreateNodeIndex g nm)) nms") auto
qed

lemma resolve_names_throw:
  "fst (resolve_names g nms) = Inl e \<Longrightarrow> snd (resolve_names g nms) = g"
proof (induction nms arbitrary: g)
  case Nil
  then show ?case by simp
next
  case (Cons nm nms)
  obtain r g1 where r: "getOrCreateNodeIndex g nm = (r, g1)" by (cases "getOrCreateNodeIndex g nm")
  show ?case
  proof (cases r)
    case (Inl e')
    then have "g1 = g" using getOrCreate_throw[of g nm e'] r by simp
    then show ?thesis using r Inl by simp
  next
    case (Inr idx)
    obtain r2 g2 where r2: "resolve_names g1 nms = (r2, g2)" by (cases "resolve_names g1 nms")
    have f: "r2 = Inl e" using Cons.prems r Inr r2 by (cases r2) auto
    have "g1 = g"
    proof (rule ccontr)
      assume "g1 \<noteq> g"
      then have "Hole \<notin> set (nodes g1)" using getOrCreate_changed[of g nm] r by auto
      from resolve_names_no_hole[OF this, of nms] r2 f show False by simp
    qed
    then have "g2 = g" using Cons.IH[of g] r2 f by simp
    then show ?thesis using r Inr r2 f by simp
  qed
qed

lemma resolve_names_live:
  "(\<forall>x. live g x \<longrightarrow> live (snd (resolve_names g names)) x)
     \<and> (\<forall>idxs. fst (resolve_names g names) = Inr idxs \<longrightarrow>
          (\<forall>i \<in> set idxs. live (snd (resolve_names g names)) i))"
proof (induction names arbitrary: g)
  case Nil
  then show ?case by simp
next
  case (Cons nm nms)
  obtain r g1 where r: "getOrCreateNodeIndex g nm = (r, g1)" by (cases "getOrCreateNodeIndex g nm")
  have k1: "\<And>x. live g x \<Longrightarrow> live g1 x" using getOrCreate_keeps_live[of g _ nm] r by simp
  show ?case
  proof (cases r)
    case (Inl e)
    then show ?thesis using r k1 by simp
  next
    case (Inr idx)
    have l1: "live g1 idx" using getOrCreate_live r Inr by simp
    obtain r2 g2 where r2: "resolve_names g1 nms = (r2, g2)" by (cases "resolve_names g1 nms")
    from Cons.IH[of g1] r2 have ih: "\<And>x. live g1 x \<Longrightarrow> live g2 x"
      "\<And>idxs. r2 = Inr idxs \<Longrightarrow> \<forall>i \<in> set idxs. live g2 i" by auto
    show ?thesis
    proof (cases r2)
      case (Inl e)
      then show ?thesis using r Inr r2 ih k1 by simp
    next
      case R: (Inr idxs)
      then show ?thesis using r Inr r2 ih k1 l1 by simp
    qed
  qed
qed

lemma sound_getOrCreate: "sound g \<Longrightarrow> sound (snd (getOrCreateNodeIndex g nm))"
proof (cases "find_name (nodes g) nm 0")
  case (Inl e)
  assume "sound g"
  with Inl show ?thesis by (simp add: getOrCreateNodeIndex_def)
next
  case (Inr o1)
  assume s: "sound g"
  show ?thesis
  proof (cases o1)
    case (Some k)
    with Inr s show ?thesis by (simp add: getOrCreateNodeIndex_def)
  next
    case None
    show ?thesis
    proof (cases "find_free (nodes g) 0")
      case N: None
      with Inr None s show ?thesis
        by (auto simp: getOrCreateNodeIndex_def sound_def all_sets_def nth_append)
    next
      case (Some k)
      from find_free_0[OF this] have "k < length (nodes g)" by simp
      with Inr None Some s show ?thesis
        by (auto simp: getOrCreateNodeIndex_def sound_def all_sets_def js_set_def nth_list_update)
    qed
  qed
qed

lemma sound_resolve_names: "sound g \<Longrightarrow> sound (snd (resolve_names g nms))"
proof (induction nms arbitrary: g)
  case Nil
  then show ?case by simp
next
  case (Cons nm nms)
  have s1: "sound (snd (getOrCreateNodeIndex g nm))" using Cons.prems by (rule sound_getOrCreate)
  from Cons.IH[OF s1] s1 show ?case
    by (cases "getOrCreateNodeIndex g nm";
        cases "resolve_names (snd (getOrCreateNodeIndex g nm)) nms")
       (auto split: sum.splits)
qed

lemma sound_adj_add: "sound g \<Longrightarrow> adj_add g a b = Some g' \<Longrightarrow> sound g'"
  by (auto simp: adj_add_def adj_at_def sound_def all_sets_def nth_list_update
      split: option.splits if_splits)

lemma sound_addOrUpdateEdge:
  assumes "sound g"
  shows "sound (snd (addOrUpdateEdge g i j d))"
proof -
  define a where "a = (if i < j then i else j)"
  define b where "b = (if i < j then j else i)"
  show ?thesis
  proof (cases "pairToEdgeIndex g (pair_key a b)")
    case (Some p)
    show ?thesis
      using Some assms
      unfolding addOrUpdateEdge_def Let_def a_def[symmetric] b_def[symmetric]
      by (auto simp: sound_def all_sets_def split: if_splits prod.splits)
  next
    case None
    let ?g2 = "g\<lparr> edges := edges g @ [(a, b, d)],
                  pairToEdgeIndex := (pairToEdgeIndex g)(pair_key a b \<mapsto> length (edges g)) \<rparr>"
    have s2: "sound ?g2" using assms by (auto simp: sound_def all_sets_def less_Suc_eq)
    show ?thesis
    proof (cases "adj_add ?g2 a b")
      case N: None
      have "snd (addOrUpdateEdge g i j d) = ?g2"
        using None N unfolding addOrUpdateEdge_def Let_def a_def[symmetric] b_def[symmetric]
        by simp
      then show ?thesis using s2 by simp
    next
      case (Some g3)
      have s3: "sound g3" using sound_adj_add[OF s2 Some] .
      show ?thesis
      proof (cases "adj_add g3 b a")
        case N: None
        have "snd (addOrUpdateEdge g i j d) = g3"
          using None Some N unfolding addOrUpdateEdge_def Let_def a_def[symmetric] b_def[symmetric]
          by simp
        then show ?thesis using s3 by simp
      next
        case S4: (Some g4)
        have "snd (addOrUpdateEdge g i j d) = g4"
          using None Some S4 unfolding addOrUpdateEdge_def Let_def a_def[symmetric] b_def[symmetric]
          by simp
        then show ?thesis using sound_adj_add[OF s3 S4] by simp
      qed
    qed
  qed
qed

lemma sound_adj_add_ok:
  "sound g \<Longrightarrow> a < length (nodes g) \<Longrightarrow> \<exists>g'. adj_add g a b = Some g' \<and> nodes g' = nodes g"
  by (auto simp: adj_add_def adj_at_def sound_def all_sets_def split: option.splits)

lemma addOrUpdateEdge_sound_ok:
  assumes "sound g" "live g i" "live g j"
  shows "fst (addOrUpdateEdge g i j d) = Inr () \<and> nodes (snd (addOrUpdateEdge g i j d)) = nodes g"
proof -
  define a where "a = (if i < j then i else j)"
  define b where "b = (if i < j then j else i)"
  have la: "a < length (nodes g)" and lb: "b < length (nodes g)"
    using assms(2,3) by (auto simp: a_def b_def live_iff)
  show ?thesis
  proof (cases "pairToEdgeIndex g (pair_key a b)")
    case (Some p)
    then have "p < length (edges g)" using assms(1) by (auto simp: sound_def)
    then show ?thesis
      using Some unfolding addOrUpdateEdge_def Let_def a_def[symmetric] b_def[symmetric]
      by (auto split: prod.splits)
  next
    case None
    let ?g2 = "g\<lparr> edges := edges g @ [(a, b, d)],
                  pairToEdgeIndex := (pairToEdgeIndex g)(pair_key a b \<mapsto> length (edges g)) \<rparr>"
    have s2: "sound ?g2" using assms(1) by (auto simp: sound_def all_sets_def less_Suc_eq)
    from sound_adj_add_ok[OF s2, of a b] la obtain g3 where
      g3: "adj_add ?g2 a b = Some g3" "nodes g3 = nodes g" by auto
    have s3: "sound g3" using sound_adj_add[OF s2 g3(1)] .
    from sound_adj_add_ok[OF s3, of b a] lb g3(2) obtain g4 where
      g4: "adj_add g3 b a = Some g4" "nodes g4 = nodes g" by auto
    show ?thesis
      using None g3 g4 unfolding addOrUpdateEdge_def Let_def a_def[symmetric] b_def[symmetric]
      by simp
  qed
qed

lemma add_edges_from_sound:
  "sound g \<Longrightarrow> live g x \<Longrightarrow> \<forall>y \<in> set ys. live g y \<Longrightarrow>
     fst (add_edges_from g x ys d) = Inr () \<and> sound (snd (add_edges_from g x ys d))
     \<and> nodes (snd (add_edges_from g x ys d)) = nodes g"
proof (induction ys arbitrary: g)
  case Nil
  then show ?case by simp
next
  case (Cons y ys)
  obtain r g1 where r: "addOrUpdateEdge g x y d = (r, g1)" by (cases "addOrUpdateEdge g x y d")
  from addOrUpdateEdge_sound_ok[OF Cons.prems(1,2), of y d] Cons.prems(3) r
    sound_addOrUpdateEdge[OF Cons.prems(1), of x y d]
  have s: "r = Inr ()" "sound g1" "nodes g1 = nodes g" by auto
  have lv: "\<And>z. live g1 z = live g z" using s(3) by (simp add: live_def slot_at_def)
  from Cons.IH[OF s(2), unfolded lv, OF Cons.prems(2)] Cons.prems(3)
  show ?case using r s by simp
qed

lemma add_all_pairs_sound:
  "sound g \<Longrightarrow> \<forall>y \<in> set xs. live g y \<Longrightarrow>
     fst (add_all_pairs g xs d) = Inr () \<and> sound (snd (add_all_pairs g xs d))
     \<and> nodes (snd (add_all_pairs g xs d)) = nodes g"
proof (induction xs arbitrary: g)
  case Nil
  then show ?case by simp
next
  case (Cons x xs)
  obtain r g1 where r: "add_edges_from g x xs d = (r, g1)" by (cases "add_edges_from g x xs d")
  from add_edges_from_sound[OF Cons.prems(1), of x xs d] Cons.prems(2) r
  have s: "r = Inr ()" "sound g1" "nodes g1 = nodes g" by auto
  have lv: "\<And>z. live g1 z = live g z" using s(3) by (simp add: live_def slot_at_def)
  from Cons.IH[OF s(2), unfolded lv] Cons.prems(2)
  show ?case using r s by simp
qed

lemma addFriendGroup_sound:
  assumes "sound g"
  shows "sound (snd (addFriendGroup g names d))
    \<and> (fst (addFriendGroup g names d) = Inl e \<longrightarrow> snd (addFriendGroup g names d) = g)"
proof -
  obtain r g1 where r: "resolve_names g names = (r, g1)" by (cases "resolve_names g names")
  have s1: "sound g1" using sound_resolve_names[OF assms, of names] r by simp
  show ?thesis
  proof (cases r)
    case (Inl e')
    then have "g1 = g" using resolve_names_throw[of g names e'] r by simp
    then show ?thesis using r Inl assms by (simp add: addFriendGroup_def)
  next
    case (Inr idxs)
    have "\<forall>i \<in> set idxs. live g1 i" using resolve_names_live[of g names] r Inr by simp
    from add_all_pairs_sound[OF s1 this, of d] show ?thesis
      using r Inr by (simp add: addFriendGroup_def)
  qed
qed

lemma sound_renameNode: "sound g \<Longrightarrow> sound (snd (renameNode g i nm))"
  by (auto simp: renameNode_def sound_def all_sets_def split: slot.splits)

lemma sound_update: "sound g \<Longrightarrow> sound (snd (update g t))"
  using update_frame[of g t] by (auto simp: sound_def all_sets_def)

lemma rebuild_loop_sound:
  "sound g \<Longrightarrow> e + length rest \<le> length (edges g) \<Longrightarrow>
   sound (snd (rebuild_loop g e rest)) \<and> edges (snd (rebuild_loop g e rest)) = edges g"
proof (induction rest arbitrary: g e)
  case Nil
  then show ?case by simp
next
  case (Cons ed rest)
  obtain a b d where ed: "ed = (a, b, d)" by (cases ed) auto
  let ?g1 = "g\<lparr> pairToEdgeIndex := (pairToEdgeIndex g)(pair_key a b \<mapsto> e) \<rparr>"
  have s1: "sound ?g1" using Cons.prems by (auto simp: sound_def all_sets_def)
  show ?case
  proof (cases "adj_add ?g1 a b")
    case None
    then show ?thesis using s1 by (simp add: ed)
  next
    case (Some g2)
    have s2: "sound g2" using sound_adj_add[OF s1 Some] .
    have e2: "edges g2 = edges g" using adj_add_frame[OF Some] by simp
    show ?thesis
    proof (cases "adj_add g2 b a")
      case None
      then show ?thesis using Some s2 e2 by (simp add: ed)
    next
      case S3: (Some g3)
      have s3: "sound g3" using sound_adj_add[OF s2 S3] .
      have e3: "edges g3 = edges g" using adj_add_frame[OF S3] e2 by simp
      have "Suc e + length rest \<le> length (edges g3)" using Cons.prems(2) e3 by simp
      from Cons.IH[OF s3 this] show ?thesis using Some S3 e3 by (simp add: ed)
    qed
  qed
qed

lemma sound_deleteNode:
  assumes "sound g"
  shows "sound (snd (deleteNode g i))"
proof (cases "slot_at g i = Free")
  case True
  then show ?thesis using assms by (simp add: deleteNode_def)
next
  case False
  let ?kept = "filter (\<lambda>e. \<not> incident i e) (edges g)"
  let ?g0 = "g\<lparr> nodes := js_set Hole (nodes g) i Free, edges := ?kept,
      pairToEdgeIndex := Map.empty,
      adj := map (\<lambda>_. Some {}) (js_set None (adj g) i (Some {})) \<rparr>"
  have s0: "sound ?g0" using assms by (simp add: sound_def all_sets_def js_set_length)
  obtain r g3 where rl: "rebuild_loop ?g0 0 ?kept = (r, g3)"
    by (cases "rebuild_loop ?g0 0 ?kept")
  have "snd (deleteNode g i) = g3"
    using False rl by (cases r) (simp_all add: deleteNode_def Let_def rebuildEdgeIndex_def)
  then show ?thesis using rebuild_loop_sound[OF s0, of 0 ?kept] rl by simp
qed


lemma adj_add_length: "adj_add g a b = Some g' \<Longrightarrow> length (adj g') = length (adj g)"
  by (auto simp: adj_add_def split: option.splits)

lemma adj_add_all_sets: "adj_add g a b = Some g' \<Longrightarrow> all_sets g \<Longrightarrow> all_sets g'"
  by (auto simp: adj_add_def adj_at_def all_sets_def nth_list_update
      split: option.splits if_splits)

lemma adj_add_None: "all_sets g \<Longrightarrow> adj_add g a b = None \<Longrightarrow> \<not> a < length (adj g)"
  by (auto simp: adj_add_def adj_at_def all_sets_def split: option.splits)

lemma rebuild_loop_throw:
  "all_sets g \<Longrightarrow> fst (rebuild_loop g e rest) = Inl err \<Longrightarrow>
   \<exists>ed \<in> set rest. \<not> (fst ed < length (adj g) \<and> fst (snd ed) < length (adj g))"
proof (induction rest arbitrary: g e)
  case Nil
  then show ?case by simp
next
  case (Cons ed rest)
  obtain a b d where ed: "ed = (a, b, d)" by (cases ed) auto
  let ?g1 = "g\<lparr> pairToEdgeIndex := (pairToEdgeIndex g)(pair_key a b \<mapsto> e) \<rparr>"
  have a1: "all_sets ?g1" using Cons.prems(1) by (simp add: all_sets_def)
  show ?case
  proof (cases "adj_add ?g1 a b")
    case None
    from adj_add_None[OF a1 None] show ?thesis by (simp add: ed)
  next
    case (Some g2)
    have a2: "all_sets g2" using adj_add_all_sets[OF Some a1] .
    have l2: "length (adj g2) = length (adj g)" using adj_add_length[OF Some] by simp
    show ?thesis
    proof (cases "adj_add g2 b a")
      case None
      from adj_add_None[OF a2 None] l2 show ?thesis by (simp add: ed)
    next
      case S3: (Some g3)
      have a3: "all_sets g3" using adj_add_all_sets[OF S3 a2] .
      have l3: "length (adj g3) = length (adj g)" using adj_add_length[OF S3] l2 by simp
      have "fst (rebuild_loop g3 (Suc e) rest) = Inl err"
        using Cons.prems(2) Some S3 by (simp add: ed)
      from Cons.IH[OF a3 this] l3 show ?thesis by auto
    qed
  qed
qed

lemma rebuild_loop_edges: "edges (snd (rebuild_loop g e rest)) = edges g"
proof (induction rest arbitrary: g e)
  case Nil
  then show ?case by simp
next
  case (Cons ed rest)
  obtain a b d where ed: "ed = (a, b, d)" by (cases ed) auto
  let ?g1 = "g\<lparr> pairToEdgeIndex := (pairToEdgeIndex g)(pair_key a b \<mapsto> e) \<rparr>"
  show ?case
  proof (cases "adj_add ?g1 a b")
    case None
    then show ?thesis by (simp add: ed)
  next
    case (Some g2)
    have n2: "edges g2 = edges g" using adj_add_frame[OF Some] by simp
    show ?thesis
    proof (cases "adj_add g2 b a")
      case None
      then show ?thesis using Some n2 by (simp add: ed)
    next
      case S3: (Some g3)
      have "edges g3 = edges g" using adj_add_frame[OF S3] n2 by simp
      then show ?thesis using Some S3 Cons.IH[of g3 "Suc e"] by (simp add: ed)
    qed
  qed
qed

lemma deleteNode_throw:
  assumes "fst (deleteNode g i) = Inl e"
  shows "slot_at g i \<noteq> Free
    \<and> nodes (snd (deleteNode g i)) = js_set Hole (nodes g) i Free
    \<and> slot_at (snd (deleteNode g i)) i = Free
    \<and> edges (snd (deleteNode g i)) = filter (\<lambda>ed. \<not> incident i ed) (edges g)
    \<and> (\<exists>ed \<in> set (filter (\<lambda>ed. \<not> incident i ed) (edges g)).
          \<not> (fst ed < max (length (adj g)) (Suc i) \<and> fst (snd ed) < max (length (adj g)) (Suc i)))"
proof -
  have nf: "slot_at g i \<noteq> Free" using assms by (auto simp: deleteNode_def)
  let ?kept = "filter (\<lambda>ed. \<not> incident i ed) (edges g)"
  let ?g0 = "g\<lparr> nodes := js_set Hole (nodes g) i Free, edges := ?kept,
      pairToEdgeIndex := Map.empty,
      adj := map (\<lambda>_. Some {}) (js_set None (adj g) i (Some {})) \<rparr>"
  obtain r g3 where rl: "rebuild_loop ?g0 0 ?kept = (r, g3)"
    by (cases "rebuild_loop ?g0 0 ?kept")
  have res: "deleteNode g i = (case r of Inl e \<Rightarrow> (Inl e, g3)
      | Inr _ \<Rightarrow> (Inr (map (\<lambda>e. (fst e, fst (snd e))) (filter (incident i) (edges g))), g3))"
    using nf rl by (cases r) (simp_all add: deleteNode_def Let_def rebuildEdgeIndex_def)
  have r: "r = Inl e" using assms res by (cases r) auto
  have g3: "snd (deleteNode g i) = g3" using res by (cases r) auto
  have n: "nodes g3 = js_set Hole (nodes g) i Free"
    using rebuild_loop_nodes[of ?g0 0 ?kept] rl by simp
  have ed: "edges g3 = ?kept" using rebuild_loop_edges[of ?g0 0 ?kept] rl by simp
  have sl: "slot_at g3 i = Free"
    unfolding slot_at_def n by (simp add: js_set_length js_set_nth_same)
  have a0: "all_sets ?g0" by (simp add: all_sets_def)
  have "fst (rebuild_loop ?g0 0 ?kept) = Inl e" using rl r by simp
  from rebuild_loop_throw[OF a0 this]
  have "\<exists>ed \<in> set ?kept. \<not> (fst ed < max (length (adj g)) (Suc i)
      \<and> fst (snd ed) < max (length (adj g)) (Suc i))"
    by (simp add: js_set_length)
  then show ?thesis using nf n ed sl g3 by simp
qed

lemma deleteNode_inv_ok: "inv g \<Longrightarrow> fst (deleteNode g i) \<noteq> Inl e"
proof (cases "slot_at g i = Free")
  case True
  then show ?thesis by (simp add: deleteNode_def)
next
  case False
  assume "inv g"
  from deleteNode_live[OF this False] show ?thesis by auto
qed

lemma addOrUpdateEdge_throw_state:
  assumes "fst (addOrUpdateEdge g i j d) = Inl e"
  shows "((\<exists>p. pairToEdgeIndex g (pair_key (min i j) (max i j)) = Some p \<and> length (edges g) \<le> p)
          \<and> snd (addOrUpdateEdge g i j d) = g)
    \<or> (pairToEdgeIndex g (pair_key (min i j) (max i j)) = None
        \<and> adj_at g (min i j) = None
        \<and> snd (addOrUpdateEdge g i j d) =
            g\<lparr> edges := edges g @ [(min i j, max i j, d)],
               pairToEdgeIndex :=
                 (pairToEdgeIndex g)(pair_key (min i j) (max i j) \<mapsto> length (edges g)) \<rparr>)
    \<or> (pairToEdgeIndex g (pair_key (min i j) (max i j)) = None
        \<and> (\<exists>s. adj_at g (min i j) = Some s)
        \<and> adj_at g (max i j) = None
        \<and> snd (addOrUpdateEdge g i j d) =
            g\<lparr> edges := edges g @ [(min i j, max i j, d)],
               pairToEdgeIndex :=
                 (pairToEdgeIndex g)(pair_key (min i j) (max i j) \<mapsto> length (edges g)),
               adj := (adj g)[min i j := Some (insert (max i j) (adj_set g (min i j)))] \<rparr>)"
proof -
  define a where "a = (if i < j then i else j)"
  define b where "b = (if i < j then j else i)"
  have mm: "min i j = a" "max i j = b" by (auto simp: a_def b_def)
  show ?thesis
  proof (cases "pairToEdgeIndex g (pair_key a b)")
    case (Some p)
    have "length (edges g) \<le> p \<and> snd (addOrUpdateEdge g i j d) = g"
      using assms Some unfolding addOrUpdateEdge_def Let_def a_def[symmetric] b_def[symmetric]
      by (auto split: if_splits prod.splits)
    then show ?thesis unfolding mm using Some by simp
  next
    case None
    let ?g2 = "g\<lparr> edges := edges g @ [(a, b, d)],
                  pairToEdgeIndex := (pairToEdgeIndex g)(pair_key a b \<mapsto> length (edges g)) \<rparr>"
    show ?thesis
    proof (cases "adj_at g a")
      case N: None
      then have "adj_add ?g2 a b = None"
        by (auto simp: adj_add_def adj_at_def split: if_splits)
      then have "snd (addOrUpdateEdge g i j d) = ?g2"
        using None unfolding addOrUpdateEdge_def Let_def a_def[symmetric] b_def[symmetric]
        by simp
      then show ?thesis unfolding mm using None N by simp
    next
      case (Some s)
      let ?g3 = "?g2\<lparr> adj := (adj g)[a := Some (insert b s)] \<rparr>"
      have g3: "adj_add ?g2 a b = Some ?g3"
        using Some by (auto simp: adj_add_def adj_at_def split: if_splits)
      have as: "adj_set g a = s" using Some by (simp add: adj_set_def)
      show ?thesis
      proof (cases "adj_add ?g3 b a")
        case N: None
        have "snd (addOrUpdateEdge g i j d) = ?g3"
          using None g3 N unfolding addOrUpdateEdge_def Let_def a_def[symmetric] b_def[symmetric]
          by simp
        moreover have "adj_at g b = None"
          using N Some by (auto simp: adj_add_def adj_at_def nth_list_update split: option.splits if_splits)
        ultimately show ?thesis unfolding mm using None Some as by simp
      next
        case S4: (Some g4)
        have "fst (addOrUpdateEdge g i j d) = Inr ()"
          using None g3 S4 unfolding addOrUpdateEdge_def Let_def a_def[symmetric] b_def[symmetric]
          by simp
        with assms show ?thesis by simp
      qed
    qed
  qed
qed

text \<open>
  Claim C6, as amended. A call of \<open>getOrCreateNodeIndex\<close>, \<open>renameNode\<close> or \<open>update\<close>
  that throws leaves the graph as it was before the call, on every state. So does a
  call of \<open>addFriendGroup\<close> that throws, on every state that calls of the six operations
  make of the empty graph, whatever their arguments and whether or not they throw: the
  states that \<open>sound\<close> describes, among them every state of the invariant. A call of
  \<open>addOrUpdateEdge\<close> that throws leaves the graph as it was only if the pair has an entry
  that points outside the edge list, which no such state has. Otherwise the pair had no
  entry, the call has already appended the edge \<open>(min, max, date)\<close> to the edge list and
  entered its key in the pair index, and either it has changed nothing else, \<open>_adj[min]\<close>
  being missing, or it has also added \<open>max\<close> to \<open>_adj[min]\<close>, \<open>_adj[max]\<close> being missing:
  that failure is not rolled back. With live endpoints it does not throw. A call of
  \<open>deleteNode(i)\<close> does not throw on a state of the invariant; where it throws, some edge
  not incident to \<open>i\<close> names an index beyond the adjacency array, and the call has
  already put \<open>null\<close> in slot \<open>i\<close>, which was not free, and removed the edges incident to
  \<open>i\<close> from the edge list: that failure is not rolled back either.
\<close>

theorem throwing_calls_and_the_state:
  "(fst (getOrCreateNodeIndex g nm) = Inl e \<longrightarrow> snd (getOrCreateNodeIndex g nm) = g)
   \<and> (fst (renameNode g i nm) = Inl e \<longrightarrow> snd (renameNode g i nm) = g)
   \<and> (fst (update g t) = Inl e \<longrightarrow> snd (update g t) = g)
   \<and> (sound g \<and> fst (addFriendGroup g names d) = Inl e \<longrightarrow> snd (addFriendGroup g names d) = g)
   \<and> (fst (addOrUpdateEdge g i j d) = Inl e \<longrightarrow>
        ((\<exists>p. pairToEdgeIndex g (pair_key (min i j) (max i j)) = Some p \<and> length (edges g) \<le> p)
          \<and> snd (addOrUpdateEdge g i j d) = g)
        \<or> (pairToEdgeIndex g (pair_key (min i j) (max i j)) = None
            \<and> adj_at g (min i j) = None
            \<and> snd (addOrUpdateEdge g i j d) =
                g\<lparr> edges := edges g @ [(min i j, max i j, d)],
                   pairToEdgeIndex :=
                     (pairToEdgeIndex g)(pair_key (min i j) (max i j) \<mapsto> length (edges g)) \<rparr>)
        \<or> (pairToEdgeIndex g (pair_key (min i j) (max i j)) = None
            \<and> (\<exists>s. adj_at g (min i j) = Some s)
            \<and> adj_at g (max i j) = None
            \<and> snd (addOrUpdateEdge g i j d) =
                g\<lparr> edges := edges g @ [(min i j, max i j, d)],
                   pairToEdgeIndex :=
                     (pairToEdgeIndex g)(pair_key (min i j) (max i j) \<mapsto> length (edges g)),
                   adj := (adj g)[min i j := Some (insert (max i j) (adj_set g (min i j)))] \<rparr>))
   \<and> (sound g \<and> live g i \<and> live g j \<longrightarrow> fst (addOrUpdateEdge g i j d) = Inr ())
   \<and> (fst (deleteNode g i) = Inl e \<longrightarrow>
        slot_at g i \<noteq> Free
        \<and> nodes (snd (deleteNode g i)) = js_set Hole (nodes g) i Free
        \<and> slot_at (snd (deleteNode g i)) i = Free
        \<and> edges (snd (deleteNode g i)) = filter (\<lambda>ed. \<not> incident i ed) (edges g)
        \<and> (\<exists>ed \<in> set (filter (\<lambda>ed. \<not> incident i ed) (edges g)).
              \<not> (fst ed < max (length (adj g)) (Suc i)
                 \<and> fst (snd ed) < max (length (adj g)) (Suc i))))
   \<and> (inv g \<longrightarrow> fst (deleteNode g i) \<noteq> Inl e)
   \<and> sound Graph_new
   \<and> (sound g \<longrightarrow>
        sound (snd (getOrCreateNodeIndex g nm))
        \<and> sound (snd (addFriendGroup g names d))
        \<and> sound (snd (addOrUpdateEdge g i j d))
        \<and> sound (snd (renameNode g i nm))
        \<and> sound (snd (deleteNode g i))
        \<and> sound (snd (update g t)))
   \<and> (reachable g \<longrightarrow> inv g)
   \<and> (inv g \<longrightarrow> sound g)"
proof -
  have c1: "fst (getOrCreateNodeIndex g nm) = Inl e \<longrightarrow> snd (getOrCreateNodeIndex g nm) = g"
    using getOrCreate_throw[of g nm e] by blast
  have c2: "fst (renameNode g i nm) = Inl e \<longrightarrow> snd (renameNode g i nm) = g"
    using renameNode_throw[of g i nm e] by blast
  have c3: "fst (update g t) = Inl e \<longrightarrow> snd (update g t) = g"
    using update_throw[of g t e] by blast
  have c4: "sound g \<and> fst (addFriendGroup g names d) = Inl e \<longrightarrow>
      snd (addFriendGroup g names d) = g"
    using addFriendGroup_sound[of g names d e] by blast
  have c6: "sound g \<and> live g i \<and> live g j \<longrightarrow> fst (addOrUpdateEdge g i j d) = Inr ()"
    using addOrUpdateEdge_sound_ok[of g i j d] by blast
  have c8: "inv g \<longrightarrow> fst (deleteNode g i) \<noteq> Inl e"
    using deleteNode_inv_ok[of g i e] by blast
  have c9: "sound g \<longrightarrow>
        sound (snd (getOrCreateNodeIndex g nm))
        \<and> sound (snd (addFriendGroup g names d))
        \<and> sound (snd (addOrUpdateEdge g i j d))
        \<and> sound (snd (renameNode g i nm))
        \<and> sound (snd (deleteNode g i))
        \<and> sound (snd (update g t))"
    using sound_getOrCreate[of g nm] addFriendGroup_sound[of g names d e]
      sound_addOrUpdateEdge[of g i j d] sound_renameNode[of g i nm] sound_deleteNode[of g i]
      sound_update[of g t]
    by blast
  have c10: "reachable g \<longrightarrow> inv g" using reachable_inv[of g] by blast
  have c11: "inv g \<longrightarrow> sound g" using inv_sound[of g] by blast
  show ?thesis
    apply (intro conjI)
    apply (rule c1)
    apply (rule c2)
    apply (rule c3)
    apply (rule c4)
    apply (rule impI, erule addOrUpdateEdge_throw_state)
    apply (rule c6)
    apply (rule impI, erule deleteNode_throw)
    apply (rule c8)
    apply (rule sound_new)
    apply (rule c9)
    apply (rule c10)
    apply (rule c11)
    done
qed

lemma one_node_A:
  "snd (getOrCreateNodeIndex Graph_new ''A'') =
     \<lparr> nodes = [Live (new_Node ''A'')], edges = [], pairToEdgeIndex = Map.empty, adj = [Some {}] \<rparr>"
  by (simp add: getOrCreateNodeIndex_def Graph_new_def)

lemma addOrUpdateEdge_A_0_1:
  "addOrUpdateEdge (snd (getOrCreateNodeIndex Graph_new ''A'')) 0 (Suc 0) d =
     (Inl TypeError,
      \<lparr> nodes = [Live (new_Node ''A'')], edges = [(0, 1, d)],
        pairToEdgeIndex = Map.empty(''0:1'' \<mapsto> 0), adj = [Some {1}] \<rparr>)"
  by (simp add: one_node_A addOrUpdateEdge_def pair_key_0_1 adj_add_def adj_at_def)

lemma deleteNode_new_1:
  "snd (deleteNode Graph_new (Suc 0)) =
     \<lparr> nodes = [Hole, Free], edges = [], pairToEdgeIndex = Map.empty, adj = [Some {}, Some {}] \<rparr>"
  by (simp add: deleteNode_def Graph_new_def slot_at_def js_set_def rebuildEdgeIndex_def)

lemma pair_key_0_2: "pair_key 0 2 = ''0:2''"
  by (simp add: pair_key_def num_str.simps digit_char_def)

lemma addOrUpdateEdge_AB_0_2:
  "addOrUpdateEdge (snd (getOrCreateNodeIndex (snd (getOrCreateNodeIndex Graph_new ''A'')) ''B'')) 0 2 d =
     (Inl TypeError,
      \<lparr> nodes = [Live (new_Node ''A''), Live (new_Node ''B'')], edges = [(0, 2, d)],
        pairToEdgeIndex = Map.empty(''0:2'' \<mapsto> 0), adj = [Some {2}, Some {}] \<rparr>)"
  by (simp add: two_nodes_AB addOrUpdateEdge_def pair_key_0_2 adj_add_def adj_at_def)

lemma deleteNode_AB_0_2_1:
  "deleteNode (snd (addOrUpdateEdge
       (snd (getOrCreateNodeIndex (snd (getOrCreateNodeIndex Graph_new ''A'')) ''B'')) 0 2 d)) (Suc 0) =
     (Inl TypeError,
      \<lparr> nodes = [Live (new_Node ''A''), Free], edges = [(0, 2, d)],
        pairToEdgeIndex = Map.empty(''0:2'' \<mapsto> 0), adj = [Some {2}, Some {}] \<rparr>)"
  by (simp add: addOrUpdateEdge_AB_0_2 deleteNode_def slot_at_def js_set_def incident_def
      rebuildEdgeIndex_def adj_add_def adj_at_def pair_key_0_2)

text \<open>
  The theorem where each of its calls throws: \<open>renameNode(0, "A")\<close> on the empty graph;
  \<open>getOrCreateNodeIndex("A")\<close>, \<open>update(1)\<close> and \<open>addFriendGroup(["A"], 2020)\<close> on the
  graph that \<open>deleteNode(1)\<close> leaves of the empty one, whose slot 0 is \<open>undefined\<close>;
  \<open>addOrUpdateEdge(0, 1, 2020)\<close> on the graph of the single node A; and \<open>deleteNode(1)\<close>
  on the graph of the nodes A and B after \<open>addOrUpdateEdge(0, 2, 2020)\<close> has thrown there.
  On the graph of the nodes A and B itself, \<open>addOrUpdateEdge(0, 1, 2020)\<close> and
  \<open>deleteNode(1)\<close> do not throw.
\<close>

theorem throwing_calls_and_the_state_witness:
  "fst (renameNode Graph_new 0 ''A'') = Inl TypeError
   \<and> snd (renameNode Graph_new 0 ''A'') = Graph_new
   \<and> fst (getOrCreateNodeIndex (snd (deleteNode Graph_new 1)) ''A'') = Inl TypeError
   \<and> snd (getOrCreateNodeIndex (snd (deleteNode Graph_new 1)) ''A'') = snd (deleteNode Graph_new 1)
   \<and> fst (update (snd (deleteNode Graph_new 1)) 1) = Inl TypeError
   \<and> snd (update (snd (deleteNode Graph_new 1)) 1) = snd (deleteNode Graph_new 1)
   \<and> sound (snd (deleteNode Graph_new 1))
   \<and> fst (addFriendGroup (snd (deleteNode Graph_new 1)) [''A''] (Date 2020)) = Inl TypeError
   \<and> snd (addFriendGroup (snd (deleteNode Graph_new 1)) [''A''] (Date 2020)) = snd (deleteNode Graph_new 1)
   \<and> fst (addOrUpdateEdge (snd (getOrCreateNodeIndex Graph_new ''A'')) 0 1 (Date 2020)) = Inl TypeError
   \<and> snd (addOrUpdateEdge (snd (getOrCreateNodeIndex Graph_new ''A'')) 0 1 (Date 2020)) =
       \<lparr> nodes = [Live (new_Node ''A'')], edges = [(0, 1, Date 2020)],
         pairToEdgeIndex = Map.empty(''0:1'' \<mapsto> 0), adj = [Some {1}] \<rparr>
   \<and> reachable (snd (getOrCreateNodeIndex (snd (getOrCreateNodeIndex Graph_new ''A'')) ''B''))
   \<and> live (snd (getOrCreateNodeIndex (snd (getOrCreateNodeIndex Graph_new ''A'')) ''B'')) 0
   \<and> live (snd (getOrCreateNodeIndex (snd (getOrCreateNodeIndex Graph_new ''A'')) ''B'')) 1
   \<and> fst (addOrUpdateEdge
        (snd (getOrCreateNodeIndex (snd (getOrCreateNodeIndex Graph_new ''A'')) ''B'')) 0 1 (Date 2020)) = Inr ()
   \<and> fst (deleteNode
        (snd (getOrCreateNodeIndex (snd (getOrCreateNodeIndex Graph_new ''A'')) ''B'')) 1) \<noteq> Inl TypeError
   \<and> fst (deleteNode (snd (addOrUpdateEdge
        (snd (getOrCreateNodeIndex (snd (getOrCreateNodeIndex Graph_new ''A'')) ''B'')) 0 2 (Date 2020))) 1)
       = Inl TypeError
   \<and> nodes (snd (deleteNode (snd (addOrUpdateEdge
        (snd (getOrCreateNodeIndex (snd (getOrCreateNodeIndex Graph_new ''A'')) ''B'')) 0 2 (Date 2020))) 1))
       = [Live (new_Node ''A''), Free]
   \<and> edges (snd (deleteNode (snd (addOrUpdateEdge
        (snd (getOrCreateNodeIndex (snd (getOrCreateNodeIndex Graph_new ''A'')) ''B'')) 0 2 (Date 2020))) 1))
       = [(0, 2, Date 2020)]"
proof -
  let ?H = "snd (deleteNode Graph_new 1)"
  let ?A = "snd (getOrCreateNodeIndex Graph_new ''A'')"
  let ?AB = "snd (getOrCreateNodeIndex (snd (getOrCreateNodeIndex Graph_new ''A'')) ''B'')"
  let ?B = "snd (addOrUpdateEdge ?AB 0 2 (Date 2020))"
  note T1 = throwing_calls_and_the_state[where g = "Graph_new" and nm = "''A''" and e = TypeError
      and i = 1 and t = 1 and j = 1 and d = "Date 2020" and names = "[''A'']"]
  note T0 = throwing_calls_and_the_state[where g = "Graph_new" and nm = "''A''" and e = TypeError
      and i = 0 and t = 1 and j = 1 and d = "Date 2020" and names = "[''A'']"]
  note T2 = throwing_calls_and_the_state[where g = "?H" and nm = "''A''" and e = TypeError
      and i = 0 and t = 1 and j = 1 and d = "Date 2020" and names = "[''A'']"]
  note T3 = throwing_calls_and_the_state[where g = "?A" and nm = "''A''" and e = TypeError
      and i = 0 and t = 1 and j = 1 and d = "Date 2020" and names = "[''A'']"]
  note T4 = throwing_calls_and_the_state[where g = "?AB" and nm = "''A''" and e = TypeError
      and i = 0 and t = 1 and j = 1 and d = "Date 2020" and names = "[''A'']"]
  note T4' = throwing_calls_and_the_state[where g = "?AB" and nm = "''A''" and e = TypeError
      and i = 1 and t = 1 and j = 1 and d = "Date 2020" and names = "[''A'']"]
  note T5 = throwing_calls_and_the_state[where g = "?B" and nm = "''A''" and e = TypeError
      and i = 1 and t = 1 and j = 1 and d = "Date 2020" and names = "[''A'']"]
  have r: "fst (renameNode Graph_new 0 ''A'') = Inl TypeError"
    by (simp add: renameNode_def Graph_new_def slot_at_def)
  have r': "snd (renameNode Graph_new 0 ''A'') = Graph_new"
    by (rule T0[THEN conjunct2, THEN conjunct1, THEN mp, OF r])
  have c: "fst (getOrCreateNodeIndex ?H ''A'') = Inl TypeError"
    by (simp add: deleteNode_new_1 getOrCreateNodeIndex_def)
  have c': "snd (getOrCreateNodeIndex ?H ''A'') = ?H"
    by (rule T2[THEN conjunct1, THEN mp, OF c])
  have u: "fst (update ?H 1) = Inl TypeError"
    by (simp add: deleteNode_new_1 update_def slot_at_def upt_rec)
  have u': "snd (update ?H 1) = ?H"
    by (rule T2[THEN conjunct2, THEN conjunct2, THEN conjunct1, THEN mp, OF u])
  have s0: "sound Graph_new" by (rule T1[THEN conjunct2, THEN conjunct2, THEN conjunct2, THEN conjunct2, THEN conjunct2, THEN conjunct2, THEN conjunct2, THEN conjunct2, THEN conjunct1])
  have sH: "sound ?H"
    by (rule T1[THEN conjunct2, THEN conjunct2, THEN conjunct2, THEN conjunct2, THEN conjunct2, THEN conjunct2, THEN conjunct2, THEN conjunct2, THEN conjunct2, THEN conjunct1, THEN mp, OF s0, THEN conjunct2, THEN conjunct2, THEN conjunct2,
          THEN conjunct2, THEN conjunct1])
  have f: "fst (addFriendGroup ?H [''A''] (Date 2020)) = Inl TypeError"
    by (simp add: deleteNode_new_1 addFriendGroup_def getOrCreateNodeIndex_def)
  have f': "snd (addFriendGroup ?H [''A''] (Date 2020)) = ?H"
    by (rule T2[THEN conjunct2, THEN conjunct2, THEN conjunct2, THEN conjunct1, THEN mp, OF conjI, OF sH f])
  have a: "fst (addOrUpdateEdge ?A 0 1 (Date 2020)) = Inl TypeError"
    by (simp add: addOrUpdateEdge_A_0_1)
  note a3 = T3[THEN conjunct2, THEN conjunct2, THEN conjunct2, THEN conjunct2, THEN conjunct1, THEN mp, OF a]
  have a': "snd (addOrUpdateEdge ?A 0 1 (Date 2020)) =
       \<lparr> nodes = [Live (new_Node ''A'')], edges = [(0, 1, Date 2020)],
         pairToEdgeIndex = Map.empty(''0:1'' \<mapsto> 0), adj = [Some {1}] \<rparr>"
    using a3
    apply (elim disjE conjE exE)
      apply (simp add: one_node_A)
     apply (simp add: one_node_A adj_at_def)
    apply (simp add: one_node_A pair_key_0_1 adj_set_def adj_at_def)
    done
  have rAB: "reachable ?AB" by (intro r_getOrCreate r_new)
  have iAB: "inv ?AB" by (rule T4[THEN conjunct2, THEN conjunct2, THEN conjunct2, THEN conjunct2, THEN conjunct2, THEN conjunct2, THEN conjunct2, THEN conjunct2, THEN conjunct2, THEN conjunct2, THEN conjunct1, THEN mp, OF rAB])
  have sAB: "sound ?AB" by (rule T4[THEN conjunct2, THEN conjunct2, THEN conjunct2, THEN conjunct2, THEN conjunct2, THEN conjunct2, THEN conjunct2, THEN conjunct2, THEN conjunct2, THEN conjunct2, THEN conjunct2, THEN mp, OF iAB])
  have l0: "live ?AB 0" by (simp add: two_nodes_AB live_iff)
  have l1: "live ?AB 1" by (simp add: two_nodes_AB live_iff)
  have ok: "fst (addOrUpdateEdge ?AB 0 1 (Date 2020)) = Inr ()"
    by (rule T4[THEN conjunct2, THEN conjunct2, THEN conjunct2, THEN conjunct2, THEN conjunct2, THEN conjunct1, THEN mp, OF conjI, OF sAB conjI, OF l0 l1])
  have dk: "fst (deleteNode ?AB 1) \<noteq> Inl TypeError"
    by (rule T4'[THEN conjunct2, THEN conjunct2, THEN conjunct2, THEN conjunct2, THEN conjunct2, THEN conjunct2, THEN conjunct2, THEN conjunct1, THEN mp, OF iAB])
  have dn: "fst (deleteNode ?B 1) = Inl TypeError" by (simp add: deleteNode_AB_0_2_1)
  note dn3 = T5[THEN conjunct2, THEN conjunct2, THEN conjunct2, THEN conjunct2, THEN conjunct2, THEN conjunct2, THEN conjunct1, THEN mp, OF dn]
  have dn1: "nodes (snd (deleteNode ?B 1)) = js_set Hole (nodes ?B) 1 Free"
    by (rule dn3[THEN conjunct2, THEN conjunct1])
  have dn2: "edges (snd (deleteNode ?B 1)) = filter (\<lambda>ed. \<not> incident 1 ed) (edges ?B)"
    by (rule dn3[THEN conjunct2, THEN conjunct2, THEN conjunct2, THEN conjunct1])
  have dn1': "nodes (snd (deleteNode ?B 1)) = [Live (new_Node ''A''), Free]"
    unfolding dn1 by (simp add: addOrUpdateEdge_AB_0_2 js_set_def)
  have dn2': "edges (snd (deleteNode ?B 1)) = [(0, 2, Date 2020)]"
    unfolding dn2 by (simp add: addOrUpdateEdge_AB_0_2 incident_def)
  from r r' c c' u u' sH f f' a a' rAB l0 l1 ok dk dn dn1' dn2' show ?thesis by blast
qed

text \<open>
  Claim C6 as stated fails for \<open>addOrUpdateEdge\<close> and for \<open>deleteNode\<close>. On the graph
  with the single node A, \<open>addOrUpdateEdge(0, 1, 2020)\<close> throws at \<open>this._adj[1].add(0)\<close>,
  after the edge \<open>(0, 1, 2020)\<close> has been pushed, its key entered in the pair index and 1
  added to \<open>_adj[0]\<close>. On the graph with the nodes A and B, \<open>addOrUpdateEdge(0, 2, 2020)\<close>
  throws in the same way and leaves the edge \<open>(0, 2, 2020)\<close>; \<open>deleteNode(1)\<close> then throws
  in \<open>_rebuildEdgeIndex\<close> at \<open>this._adj[2].add(0)\<close>, after slot 1 has been set to \<open>null\<close>.
\<close>

theorem addOrUpdateEdge_throws_after_mutation:
  "edges (snd (getOrCreateNodeIndex Graph_new ''A'')) = []
   \<and> pairToEdgeIndex (snd (getOrCreateNodeIndex Graph_new ''A'')) ''0:1'' = None
   \<and> adj_set (snd (getOrCreateNodeIndex Graph_new ''A'')) 0 = {}
   \<and> fst (addOrUpdateEdge (snd (getOrCreateNodeIndex Graph_new ''A'')) 0 1 (Date 2020)) = Inl TypeError
   \<and> edges (snd (addOrUpdateEdge (snd (getOrCreateNodeIndex Graph_new ''A'')) 0 1 (Date 2020))) = [(0, 1, Date 2020)]
   \<and> pairToEdgeIndex (snd (addOrUpdateEdge (snd (getOrCreateNodeIndex Graph_new ''A'')) 0 1 (Date 2020))) ''0:1'' = Some 0
   \<and> adj_set (snd (addOrUpdateEdge (snd (getOrCreateNodeIndex Graph_new ''A'')) 0 1 (Date 2020))) 0 = {1}
   \<and> addOrUpdateEdge (snd (getOrCreateNodeIndex (snd (getOrCreateNodeIndex Graph_new ''A'')) ''B'')) 0 2 (Date 2020) =
       (Inl TypeError,
        \<lparr> nodes = [Live (new_Node ''A''), Live (new_Node ''B'')], edges = [(0, 2, Date 2020)],
          pairToEdgeIndex = Map.empty(''0:2'' \<mapsto> 0), adj = [Some {2}, Some {}] \<rparr>)
   \<and> deleteNode (snd (addOrUpdateEdge
         (snd (getOrCreateNodeIndex (snd (getOrCreateNodeIndex Graph_new ''A'')) ''B'')) 0 2 (Date 2020))) 1 =
       (Inl TypeError,
        \<lparr> nodes = [Live (new_Node ''A''), Free], edges = [(0, 2, Date 2020)],
          pairToEdgeIndex = Map.empty(''0:2'' \<mapsto> 0), adj = [Some {2}, Some {}] \<rparr>)"
proof -
  let ?A = "snd (getOrCreateNodeIndex Graph_new ''A'')"
  let ?AB = "snd (getOrCreateNodeIndex (snd (getOrCreateNodeIndex Graph_new ''A'')) ''B'')"
  have b: "edges ?A = [] \<and> pairToEdgeIndex ?A ''0:1'' = None \<and> adj_set ?A 0 = {}"
    by (simp add: one_node_A adj_set_def adj_at_def)
  have a: "fst (addOrUpdateEdge ?A 0 1 (Date 2020)) = Inl TypeError
    \<and> edges (snd (addOrUpdateEdge ?A 0 1 (Date 2020))) = [(0, 1, Date 2020)]
    \<and> pairToEdgeIndex (snd (addOrUpdateEdge ?A 0 1 (Date 2020))) ''0:1'' = Some 0
    \<and> adj_set (snd (addOrUpdateEdge ?A 0 1 (Date 2020))) 0 = {1}"
    by (simp add: addOrUpdateEdge_A_0_1 adj_set_def adj_at_def)
  have c: "addOrUpdateEdge ?AB 0 2 (Date 2020) =
       (Inl TypeError,
        \<lparr> nodes = [Live (new_Node ''A''), Live (new_Node ''B'')], edges = [(0, 2, Date 2020)],
          pairToEdgeIndex = Map.empty(''0:2'' \<mapsto> 0), adj = [Some {2}, Some {}] \<rparr>)"
    by (rule addOrUpdateEdge_AB_0_2)
  have d: "deleteNode (snd (addOrUpdateEdge ?AB 0 2 (Date 2020))) 1 =
       (Inl TypeError,
        \<lparr> nodes = [Live (new_Node ''A''), Free], edges = [(0, 2, Date 2020)],
          pairToEdgeIndex = Map.empty(''0:2'' \<mapsto> 0), adj = [Some {2}, Some {}] \<rparr>)"
    using deleteNode_AB_0_2_1[of "Date 2020"] by simp
  from a b c d show ?thesis by blast
qed

subsection \<open>The pair interaction of the force step\<close>

lemma and_7_mod_8: "(j::nat) AND 7 = j mod 8"
  using take_bit_eq_mask[of 3 j] by (simp add: mask_eq_exp_minus_1 take_bit_eq_mod)

lemma jitter_length: "length jitter = 8"
  by (simp add: jitter_def)

lemma jitter_nonzero: "k < 8 \<Longrightarrow> jitter ! k \<noteq> (0, 0)"
proof -
  assume "k < 8"
  then have "k \<in> {0, 1, 2, 3, 4, 5, 6, 7}" by auto
  then show ?thesis by (auto simp: jitter_def vec2_def)
qed

lemma vec2_len_zero: "vec2_len v = 0 \<longleftrightarrow> v = (0, 0)"
proof -
  have "fst v * fst v + snd v * snd v = 0 \<longleftrightarrow> fst v = 0 \<and> snd v = 0"
    by (simp add: sum_squares_eq_zero_iff)
  then show ?thesis by (cases v) (simp add: vec2_len_def)
qed

lemma pair_r_nonzero: "pair_r j p_i p_j \<noteq> (0, 0)"
proof (cases "vec2_eq p_i p_j")
  case True
  then have "pair_r j p_i p_j = jitter ! (j mod 8)"
    by (cases p_i; cases p_j) (simp add: pair_r_def and_7_mod_8 vec2_eq_def vec2_add_def vec2_sub_def)
  then show ?thesis using jitter_nonzero[of "j mod 8"] by simp
next
  case False
  then show ?thesis by (cases p_i; cases p_j) (auto simp: pair_r_def vec2_eq_def vec2_sub_def)
qed

lemma pair_len_pos: "0 < vec2_len (pair_r j p_i p_j)"
proof -
  have "0 \<le> vec2_len (pair_r j p_i p_j)" by (simp add: vec2_len_def)
  moreover have "vec2_len (pair_r j p_i p_j) \<noteq> 0" using pair_r_nonzero by (simp add: vec2_len_zero)
  ultimately show ?thesis by simp
qed

lemma pair_step_live:
  assumes "slot_at g i2 = Live ni" "slot_at g j = Live nj" "adj_at g i2 = Some s"
  shows "pair_step g i2 j forces =
     Inr (push (if j \<in> s then pull forces i2 j (fSpring (pair_dir j (pos ni) (pos nj)) (pair_dist j (pos ni) (pos nj)))
                else push forces i2 j (frep (pair_dir j (pos ni) (pos nj)) (pair_dist j (pos ni) (pos nj))))
            i2 j (fcl (pair_dir j (pos ni) (pos nj)) (pair_dist j (pos ni) (pos nj))))"
  using assms by (simp add: pair_step_def Let_def)

lemma vec2_len_unit: "0 < vec2_len r \<Longrightarrow> vec2_len (vec2_div r (vec2_len r)) = 1"
proof -
  assume p: "0 < vec2_len r"
  let ?l = "vec2_len r"
  have sq: "?l * ?l = fst r * fst r + snd r * snd r"
    by (simp add: vec2_len_def)
  have "(fst r / ?l) * (fst r / ?l) + (snd r / ?l) * (snd r / ?l) = (fst r * fst r + snd r * snd r) / (?l * ?l)"
    by (simp add: add_divide_distrib)
  also have "\<dots> = (?l * ?l) / (?l * ?l)" by (simp only: sq)
  also have "\<dots> = 1" using p by simp
  finally show ?thesis by (simp add: vec2_len_def vec2_div_def)
qed

text \<open>
  Claim C5, as amended. In every pair interaction of \<open>update\<close>, for live nodes in slots
  \<open>i2\<close> and \<open>j\<close> whose separation vector, after the jitter substitution, is \<open>r\<close>: the
  direction vector that scales all three force terms is \<open>r\<close> divided by \<open>length(r)\<close>, the
  distance before clamping, whose divisor is positive, so that the direction has length 1;
  the clamped distance \<open>max(length(r), 1)\<close> enters the three magnitudes only. The
  direction equals \<open>r / max(length(r), 1)\<close> exactly when \<open>length(r) \<ge> 1\<close>.
\<close>

theorem direction_is_unit_vector:
  assumes "slot_at g i2 = Live ni" "slot_at g j = Live nj" "adj_at g i2 = Some s"
  shows "pair_step g i2 j forces =
     Inr (push (if j \<in> s
                then pull forces i2 j
                       (vec2_mul (pair_dir j (pos ni) (pos nj))
                          (springK * (pair_dist j (pos ni) (pos nj) - springRest)
                             * \<bar>pair_dist j (pos ni) (pos nj) - springRest\<bar> / springRest))
                else push forces i2 j
                       (vec2_mul (pair_dir j (pos ni) (pos nj))
                          (repelK / (pair_dist j (pos ni) (pos nj) * pair_dist j (pos ni) (pos nj)))))
            i2 j
            (vec2_mul (pair_dir j (pos ni) (pos nj))
               (closeRepelK / (pair_dist j (pos ni) (pos nj) * pair_dist j (pos ni) (pos nj)
                                * pair_dist j (pos ni) (pos nj) * pair_dist j (pos ni) (pos nj)))))
    \<and> pair_dir j (pos ni) (pos nj) =
        vec2_div (pair_r j (pos ni) (pos nj)) (vec2_len (pair_r j (pos ni) (pos nj)))
    \<and> 0 < vec2_len (pair_r j (pos ni) (pos nj))
    \<and> vec2_len (pair_dir j (pos ni) (pos nj)) = 1
    \<and> pair_dist j (pos ni) (pos nj) = max (vec2_len (pair_r j (pos ni) (pos nj))) 1
    \<and> (pair_dir j (pos ni) (pos nj) =
          vec2_div (pair_r j (pos ni) (pos nj)) (max (vec2_len (pair_r j (pos ni) (pos nj))) 1)
        \<longleftrightarrow> 1 \<le> vec2_len (pair_r j (pos ni) (pos nj)))"
proof -
  let ?r = "pair_r j (pos ni) (pos nj)"
  have p: "0 < vec2_len ?r" by (rule pair_len_pos)
  have d: "pair_dir j (pos ni) (pos nj) = vec2_div ?r (vec2_len ?r)" by (simp add: pair_dir_def Let_def)
  have u: "vec2_len (pair_dir j (pos ni) (pos nj)) = 1" unfolding d using p by (rule vec2_len_unit)
  have s: "pair_step g i2 j forces =
     Inr (push (if j \<in> s
                then pull forces i2 j
                       (vec2_mul (pair_dir j (pos ni) (pos nj))
                          (springK * (pair_dist j (pos ni) (pos nj) - springRest)
                             * \<bar>pair_dist j (pos ni) (pos nj) - springRest\<bar> / springRest))
                else push forces i2 j
                       (vec2_mul (pair_dir j (pos ni) (pos nj))
                          (repelK / (pair_dist j (pos ni) (pos nj) * pair_dist j (pos ni) (pos nj)))))
            i2 j
            (vec2_mul (pair_dir j (pos ni) (pos nj))
               (closeRepelK / (pair_dist j (pos ni) (pos nj) * pair_dist j (pos ni) (pos nj)
                                * pair_dist j (pos ni) (pos nj) * pair_dist j (pos ni) (pos nj)))))"
    unfolding pair_step_live[OF assms] by (simp add: fSpring_def frep_def fcl_def Let_def)
  have e: "vec2_div ?r (vec2_len ?r) = vec2_div ?r (max (vec2_len ?r) 1) \<longleftrightarrow> 1 \<le> vec2_len ?r"
  proof
    assume "1 \<le> vec2_len ?r"
    then show "vec2_div ?r (vec2_len ?r) = vec2_div ?r (max (vec2_len ?r) 1)" by (simp add: max_def)
  next
    assume eq: "vec2_div ?r (vec2_len ?r) = vec2_div ?r (max (vec2_len ?r) 1)"
    show "1 \<le> vec2_len ?r"
    proof (rule ccontr)
      assume "\<not> 1 \<le> vec2_len ?r"
      then have lt: "vec2_len ?r < 1" by simp
      then have m: "max (vec2_len ?r) 1 = 1" by simp
      have "vec2_len (vec2_div ?r 1) = 1" using eq u d m by simp
      moreover have "vec2_div ?r 1 = ?r" by (simp add: vec2_div_def)
      ultimately show False using lt by simp
    qed
  qed
  show ?thesis using s d p u e by (simp add: pair_dist_def)
qed

text \<open>The theorem at the graph of the friend group \<open>["A", "B"]\<close>, both nodes at the origin.\<close>

theorem direction_is_unit_vector_witness:
  "slot_at (snd (addFriendGroup Graph_new [''A'', ''B''] (Date 2020))) 0 = Live (new_Node ''A'')
   \<and> slot_at (snd (addFriendGroup Graph_new [''A'', ''B''] (Date 2020))) 1 = Live (new_Node ''B'')
   \<and> adj_at (snd (addFriendGroup Graph_new [''A'', ''B''] (Date 2020))) 0 = Some {1}
   \<and> vec2_len (pair_dir 1 (pos (new_Node ''A'')) (pos (new_Node ''B''))) = 1
   \<and> 0 < vec2_len (pair_r 1 (pos (new_Node ''A'')) (pos (new_Node ''B'')))"
proof -
  let ?G = "snd (addFriendGroup Graph_new [''A'', ''B''] (Date 2020))"
  have a: "slot_at ?G 0 = Live (new_Node ''A'')" by (simp add: addFriendGroup_AB slot_at_def)
  have b: "slot_at ?G 1 = Live (new_Node ''B'')" by (simp add: addFriendGroup_AB slot_at_def)
  have c: "adj_at ?G 0 = Some {1}" by (simp add: addFriendGroup_AB adj_at_def)
  note T = direction_is_unit_vector[OF a b c, of "[]"]
  have u: "vec2_len (pair_dir 1 (pos (new_Node ''A'')) (pos (new_Node ''B''))) = 1"
    using T by blast
  have p: "0 < vec2_len (pair_r 1 (pos (new_Node ''A'')) (pos (new_Node ''B'')))"
    using T by blast
  from a b c u p show ?thesis by blast
qed

lemma pair_r_half: "pair_r j (vec2 0 0) (vec2 (1/2) 0) = vec2 (1/2) 0"
  by (simp add: pair_r_def vec2_eq_def vec2_def vec2_sub_def)

lemma vec2_len_half: "vec2_len (vec2 (1/2) 0) = 1/2"
proof -
  have "sqrt ((1/2) * (1/2)) = \<bar>1/2::real\<bar>" by (rule real_sqrt_abs2)
  then show ?thesis by (simp add: vec2_len_def vec2_def)
qed

text \<open>
  Claim C5 as stated fails for two nodes closer than one unit. With node 0 at the origin
  and node 1 at \<open>(1/2, 0)\<close>, not adjacent, \<open>r = (1/2, 0)\<close> and the code's direction is
  \<open>r / length(r) = (1, 0)\<close>, while \<open>r / max(length(r), 1)\<close> is \<open>(1/2, 0)\<close>; the pair
  interaction changes the accumulators by \<open>(-3100, 0)\<close> and \<open>(3100, 0)\<close>, which is
  \<open>2600 + 500\<close> times the unit direction.
\<close>

theorem direction_not_divided_by_clamped_distance:
  "pair_dir 1 (vec2 0 0) (vec2 (1/2) 0) = vec2 1 0
   \<and> vec2_div (pair_r 1 (vec2 0 0) (vec2 (1/2) 0))
        (max (vec2_len (pair_r 1 (vec2 0 0) (vec2 (1/2) 0))) 1) = vec2 (1/2) 0
   \<and> pair_step
        \<lparr> nodes = [Live \<lparr> name = ''A'', image = None, pos = vec2 0 0 \<rparr>,
                   Live \<lparr> name = ''B'', image = None, pos = vec2 (1/2) 0 \<rparr>],
          edges = [], pairToEdgeIndex = Map.empty, adj = [Some {}, Some {}] \<rparr>
        0 1 [vec2 0 0, vec2 0 0]
       = Inr [vec2 (- 3100) 0, vec2 3100 0]"
proof -
  have d: "pair_dir j (vec2 0 0) (vec2 (1/2) 0) = vec2 1 0" for j
    by (simp add: pair_dir_def Let_def pair_r_half vec2_len_half) (simp add: vec2_div_def vec2_def)
  have c: "vec2_div (pair_r 1 (vec2 0 0) (vec2 (1/2) 0))
        (max (vec2_len (pair_r 1 (vec2 0 0) (vec2 (1/2) 0))) 1) = vec2 (1/2) 0"
    by (simp add: pair_r_half vec2_len_half) (simp add: vec2_div_def vec2_def)
  have m: "pair_dist j (vec2 0 0) (vec2 (1/2) 0) = 1" for j
    by (simp add: pair_dist_def pair_r_half vec2_len_half)
  have s: "pair_step
        \<lparr> nodes = [Live \<lparr> name = ''A'', image = None, pos = vec2 0 0 \<rparr>,
                   Live \<lparr> name = ''B'', image = None, pos = vec2 (1/2) 0 \<rparr>],
          edges = [], pairToEdgeIndex = Map.empty, adj = [Some {}, Some {}] \<rparr>
        0 1 [vec2 0 0, vec2 0 0]
       = Inr [vec2 (- 3100) 0, vec2 3100 0]"
    by (simp add: pair_step_def slot_at_def adj_at_def Let_def d m frep_def fcl_def push_def
        repelK_def closeRepelK_def)
       (simp add: vec2_def vec2_mul_def vec2_sub_def vec2_add_def)
  from d[of 1] c s show ?thesis by blast
qed

subsection \<open>Equal and opposite contributions\<close>

lemma pull_contrib:
  assumes "i2 \<noteq> j" "i2 < length F" "j < length F"
  shows "vec2_sub (pull F i2 j f ! i2) (F ! i2) = f"
    and "vec2_sub (pull F i2 j f ! j) (F ! j) = vec2_neg f"
    and "length (pull F i2 j f) = length F"
    and "\<And>k. k \<noteq> i2 \<Longrightarrow> k \<noteq> j \<Longrightarrow> pull F i2 j f ! k = F ! k"
  using assms by (simp_all add: pull_def Let_def vec2_sub_def vec2_add_def vec2_neg_def)

lemma push_contrib:
  assumes "i2 \<noteq> j" "i2 < length F" "j < length F"
  shows "vec2_sub (push F i2 j f ! i2) (F ! i2) = vec2_neg f"
    and "vec2_sub (push F i2 j f ! j) (F ! j) = f"
    and "length (push F i2 j f) = length F"
    and "\<And>k. k \<noteq> i2 \<Longrightarrow> k \<noteq> j \<Longrightarrow> push F i2 j f ! k = F ! k"
  using assms by (simp_all add: push_def Let_def vec2_sub_def vec2_add_def vec2_neg_def)

lemma vec2_neg_neg: "vec2_neg (vec2_neg f) = f"
  by (simp add: vec2_neg_def)

text \<open>
  Claim C7. In every pair interaction of \<open>update\<close>, for live nodes in slots \<open>i2 < j\<close>
  within the accumulator array, each force term changes the accumulator of \<open>i2\<close> by the
  exact negation of its change to the accumulator of \<open>j\<close>: the spring term adds
  \<open>fSpring\<close> to \<open>i2\<close> and \<open>-fSpring\<close> to \<open>j\<close> when the nodes are adjacent, the long-range
  repulsion adds \<open>-frep\<close> and \<open>frep\<close> when they are not, the close-range repulsion adds
  \<open>-fcl\<close> and \<open>fcl\<close> in both cases; so do the totals of the interaction, and no other
  accumulator changes.
\<close>

theorem pair_contributions_opposite:
  assumes "slot_at g i2 = Live ni" "slot_at g j = Live nj" "adj_at g i2 = Some s"
    and "i2 < j" "j < length forces"
  shows "\<exists>forces1 forces2 dir dst.
      dir = pair_dir j (pos ni) (pos nj) \<and> dst = pair_dist j (pos ni) (pos nj)
    \<and> forces1 = (if j \<in> s then pull forces i2 j (fSpring dir dst)
                  else push forces i2 j (frep dir dst))
    \<and> forces2 = push forces1 i2 j (fcl dir dst)
    \<and> pair_step g i2 j forces = Inr forces2
    \<and> (j \<in> s \<longrightarrow> vec2_sub (forces1 ! i2) (forces ! i2) = fSpring dir dst
                  \<and> vec2_sub (forces1 ! j) (forces ! j) = vec2_neg (fSpring dir dst))
    \<and> (j \<notin> s \<longrightarrow> vec2_sub (forces1 ! i2) (forces ! i2) = vec2_neg (frep dir dst)
                  \<and> vec2_sub (forces1 ! j) (forces ! j) = frep dir dst)
    \<and> vec2_sub (forces2 ! i2) (forces1 ! i2) = vec2_neg (fcl dir dst)
    \<and> vec2_sub (forces2 ! j) (forces1 ! j) = fcl dir dst
    \<and> vec2_sub (forces2 ! i2) (forces ! i2) = vec2_neg (vec2_sub (forces2 ! j) (forces ! j))
    \<and> length forces2 = length forces
    \<and> (\<forall>k. k \<noteq> i2 \<and> k \<noteq> j \<longrightarrow> forces2 ! k = forces ! k)"
proof -
  define dir where "dir = pair_dir j (pos ni) (pos nj)"
  define dst where "dst = pair_dist j (pos ni) (pos nj)"
  define forces1 where "forces1 = (if j \<in> s then pull forces i2 j (fSpring dir dst)
                  else push forces i2 j (frep dir dst))"
  define forces2 where "forces2 = push forces1 i2 j (fcl dir dst)"
  have ne: "i2 \<noteq> j" and b: "i2 < length forces" "j < length forces" using assms(4,5) by auto
  have l1: "length forces1 = length forces"
    using pull_contrib(3)[OF ne b] push_contrib(3)[OF ne b] by (simp add: forces1_def)
  have b1: "i2 < length forces1" "j < length forces1" using b l1 by auto
  have st: "pair_step g i2 j forces = Inr forces2"
    using assms(1,2,3) by (simp add: pair_step_def Let_def forces2_def forces1_def dir_def dst_def)
  have sp: "j \<in> s \<longrightarrow> vec2_sub (forces1 ! i2) (forces ! i2) = fSpring dir dst
                  \<and> vec2_sub (forces1 ! j) (forces ! j) = vec2_neg (fSpring dir dst)"
    using pull_contrib(1,2)[OF ne b] by (simp add: forces1_def)
  have rp: "j \<notin> s \<longrightarrow> vec2_sub (forces1 ! i2) (forces ! i2) = vec2_neg (frep dir dst)
                  \<and> vec2_sub (forces1 ! j) (forces ! j) = frep dir dst"
    using push_contrib(1,2)[OF ne b] by (simp add: forces1_def)
  have cl: "vec2_sub (forces2 ! i2) (forces1 ! i2) = vec2_neg (fcl dir dst)"
    "vec2_sub (forces2 ! j) (forces1 ! j) = fcl dir dst"
    using push_contrib(1,2)[OF ne b1] by (simp_all add: forces2_def)
  have l2: "length forces2 = length forces"
    using push_contrib(3)[OF ne b1] l1 by (simp add: forces2_def)
  have oth: "\<forall>k. k \<noteq> i2 \<and> k \<noteq> j \<longrightarrow> forces2 ! k = forces ! k"
    using push_contrib(4)[OF ne b1] pull_contrib(4)[OF ne b] push_contrib(4)[OF ne b]
    by (simp add: forces2_def forces1_def)
  have tot_i: "vec2_sub (forces2 ! i2) (forces ! i2)
      = vec2_add (vec2_sub (forces2 ! i2) (forces1 ! i2)) (vec2_sub (forces1 ! i2) (forces ! i2))"
    by (simp add: vec2_sub_def vec2_add_def)
  have tot_j: "vec2_sub (forces2 ! j) (forces ! j)
      = vec2_add (vec2_sub (forces2 ! j) (forces1 ! j)) (vec2_sub (forces1 ! j) (forces ! j))"
    by (simp add: vec2_sub_def vec2_add_def)
  have tot: "vec2_sub (forces2 ! i2) (forces ! i2) = vec2_neg (vec2_sub (forces2 ! j) (forces ! j))"
  proof (cases "j \<in> s")
    case True
    then show ?thesis unfolding tot_i tot_j using sp cl
      by (simp add: vec2_neg_def vec2_add_def)
  next
    case False
    then show ?thesis unfolding tot_i tot_j using rp cl
      by (simp add: vec2_neg_def vec2_add_def)
  qed
  show ?thesis
    using st sp rp cl tot l2 oth dir_def dst_def forces1_def forces2_def by blast
qed

text \<open>
  The theorem at the graph of the friend group \<open>["A", "B"]\<close> with the accumulators at
  zero: the pair interaction returns accumulators that are each other's negation.
\<close>

theorem pair_contributions_opposite_witness:
  "slot_at (snd (addFriendGroup Graph_new [''A'', ''B''] (Date 2020))) 0 = Live (new_Node ''A'')
   \<and> slot_at (snd (addFriendGroup Graph_new [''A'', ''B''] (Date 2020))) 1 = Live (new_Node ''B'')
   \<and> adj_at (snd (addFriendGroup Graph_new [''A'', ''B''] (Date 2020))) 0 = Some {1}
   \<and> (0::nat) < 1 \<and> 1 < length [vec2 0 0, vec2 0 0]
   \<and> (\<exists>forces2. pair_step (snd (addFriendGroup Graph_new [''A'', ''B''] (Date 2020))) 0 1 [vec2 0 0, vec2 0 0]
          = Inr forces2
        \<and> vec2_sub (forces2 ! 0) ([vec2 0 0, vec2 0 0] ! 0)
            = vec2_neg (vec2_sub (forces2 ! 1) ([vec2 0 0, vec2 0 0] ! 1)))"
proof -
  let ?G = "snd (addFriendGroup Graph_new [''A'', ''B''] (Date 2020))"
  have a: "slot_at ?G 0 = Live (new_Node ''A'')" by (simp add: addFriendGroup_AB slot_at_def)
  have b: "slot_at ?G 1 = Live (new_Node ''B'')" by (simp add: addFriendGroup_AB slot_at_def)
  have c: "adj_at ?G 0 = Some {1}" by (simp add: addFriendGroup_AB adj_at_def)
  have d: "(0::nat) < 1" by simp
  have e: "1 < length [vec2 0 0, vec2 0 0]" by simp
  from pair_contributions_opposite[OF a b c d e]
  have "\<exists>forces2. pair_step ?G 0 1 [vec2 0 0, vec2 0 0] = Inr forces2
        \<and> vec2_sub (forces2 ! 0) ([vec2 0 0, vec2 0 0] ! 0)
            = vec2_neg (vec2_sub (forces2 ! 1) ([vec2 0 0, vec2 0 0] ! 1))"
    by blast
  with a b c d e show ?thesis by blast
qed

subsection \<open>The jitter table\<close>

lemma cos_135: "cos (3 * pi / 4) = - (sqrt 2 / 2)"
proof -
  have "cos (3 * pi / 4) = cos (pi - pi / 4)" by (simp add: field_simps)
  also have "\<dots> = - cos (pi / 4)" by (rule cos_pi_minus)
  finally show ?thesis by (simp add: cos_45)
qed

lemma sin_135: "sin (3 * pi / 4) = sqrt 2 / 2"
proof -
  have "sin (3 * pi / 4) = sin (pi - pi / 4)" by (simp add: field_simps)
  also have "\<dots> = sin (pi / 4)" by (rule sin_pi_minus)
  finally show ?thesis by (simp add: sin_45)
qed

lemma cos_225: "cos (5 * pi / 4) = - (sqrt 2 / 2)"
proof -
  have "cos (5 * pi / 4) = cos (pi / 4 + pi)" by (simp add: field_simps)
  also have "\<dots> = - cos (pi / 4)" by (rule cos_periodic_pi)
  finally show ?thesis by (simp add: cos_45)
qed

lemma sin_225: "sin (5 * pi / 4) = - (sqrt 2 / 2)"
proof -
  have "sin (5 * pi / 4) = sin (pi / 4 + pi)" by (simp add: field_simps)
  also have "\<dots> = - sin (pi / 4)" by (rule sin_periodic_pi)
  finally show ?thesis by (simp add: sin_45)
qed

lemma cos_315: "cos (7 * pi / 4) = sqrt 2 / 2"
proof -
  have "cos (7 * pi / 4) = cos (2 * pi - pi / 4)" by (simp add: field_simps)
  also have "\<dots> = cos (pi / 4)" by (rule cos_2pi_minus)
  finally show ?thesis by (simp add: cos_45)
qed

lemma sin_315: "sin (7 * pi / 4) = - (sqrt 2 / 2)"
proof -
  have "sin (7 * pi / 4) = sin (2 * pi - pi / 4)" by (simp add: field_simps)
  also have "\<dots> = - sin (pi / 4)" by (rule sin_2pi_minus)
  finally show ?thesis by (simp add: sin_45)
qed

lemma cos_270: "cos (3 * pi / 2) = 0"
proof -
  have "cos (3 * pi / 2) = cos (pi / 2 + pi)" by (simp add: field_simps)
  also have "\<dots> = - cos (pi / 2)" by (rule cos_periodic_pi)
  finally show ?thesis by simp
qed

lemma sin_270: "sin (3 * pi / 2) = - 1"
proof -
  have "sin (3 * pi / 2) = sin (pi / 2 + pi)" by (simp add: field_simps)
  also have "\<dots> = - sin (pi / 2)" by (rule sin_periodic_pi)
  finally show ?thesis by simp
qed

lemma sqrt2_sq: "sqrt 2 * sqrt 2 = (2::real)"
  by simp

text \<open>The angle of entry \<open>k\<close>, 45 degrees times \<open>k\<close>, and the radius at which it lies.\<close>

lemma jitter_ring:
  "jitter = map (\<lambda>k. vec2 ((if even k then 5 / 2 else 9 / 5 * sqrt 2) * cos (real k * pi / 4))
                          ((if even k then 5 / 2 else 9 / 5 * sqrt 2) * sin (real k * pi / 4)))
              [0, 1, 2, 3, 4, 5, 6, 7]"
  by (simp add: jitter_def vec2_def cos_45 sin_45 cos_135 sin_135 cos_225 sin_225 cos_315 sin_315
      cos_270 sin_270)

lemma vec2_len_axis: "vec2_len (vec2 x 0) = \<bar>x\<bar>" "vec2_len (vec2 0 x) = \<bar>x\<bar>"
  by (simp_all add: vec2_len_def vec2_def)

lemma vec2_len_diagonal:
  assumes "\<bar>x\<bar> = 9 / 5" "\<bar>y\<bar> = 9 / 5"
  shows "vec2_len (vec2 x y) = 9 / 5 * sqrt 2"
proof -
  have "x * x = \<bar>x\<bar> * \<bar>x\<bar>" "y * y = \<bar>y\<bar> * \<bar>y\<bar>" by simp_all
  then have e: "x * x + y * y = (9 / 5 * sqrt 2)\<^sup>2"
    unfolding assms by (simp add: power2_eq_square)
  have "sqrt (x * x + y * y) = 9 / 5 * sqrt 2"
    unfolding e by (rule real_sqrt_unique) simp_all
  then show ?thesis by (simp add: vec2_len_def vec2_def)
qed

lemma jitter_lengths:
  "map vec2_len jitter =
     [5 / 2, 9 / 5 * sqrt 2, 5 / 2, 9 / 5 * sqrt 2, 5 / 2, 9 / 5 * sqrt 2, 5 / 2, 9 / 5 * sqrt 2]"
  by (simp add: jitter_def vec2_len_axis vec2_len_diagonal)

lemma pair_r_coincident: "pair_r j p p = jitter ! (j mod 8)"
  by (cases p) (simp add: pair_r_def and_7_mod_8 vec2_eq_def vec2_add_def vec2_sub_def)

lemma sqrt2_not_rational_here: "sqrt 2 \<noteq> 25 / 18" "sqrt 2 \<noteq> 36 / 25"
proof -
  have "(25 / 18 :: real) * (25 / 18) \<noteq> 2" by simp
  then show "sqrt 2 \<noteq> 25 / 18" using sqrt2_sq by metis
  have "(36 / 25 :: real) * (36 / 25) \<noteq> 2" by simp
  then show "sqrt 2 \<noteq> 36 / 25" using sqrt2_sq by metis
qed

text \<open>
  Claim C9, as amended. The jitter table is a ring of eight vectors spaced 45 degrees
  apart: entry \<open>k\<close> is \<open>(cos(45\<degree>\<cdot>k), sin(45\<degree>\<cdot>k))\<close> scaled by 2.5 when \<open>k\<close> is even and by
  \<open>1.8\<cdot>\<surd>2\<close> (about 2.546) when \<open>k\<close> is odd, the odd entries being \<open>(\<plusminus>1.8, \<plusminus>1.8)\<close>, so
  the lengths alternate between 2.5 and \<open>1.8\<cdot>\<surd>2\<close>. For a coincident pair the
  separation vector is the entry at index \<open>j mod 8\<close>, where \<open>j\<close> is the index passed by the
  inner loop, the higher one of the pair; it depends on \<open>j\<close> alone.
\<close>

theorem jitter_ring_and_choice:
  "jitter = map (\<lambda>k. vec2 ((if even k then 5 / 2 else 9 / 5 * sqrt 2) * cos (real k * pi / 4))
                          ((if even k then 5 / 2 else 9 / 5 * sqrt 2) * sin (real k * pi / 4)))
              [0, 1, 2, 3, 4, 5, 6, 7]
   \<and> map vec2_len jitter =
       [5 / 2, 9 / 5 * sqrt 2, 5 / 2, 9 / 5 * sqrt 2, 5 / 2, 9 / 5 * sqrt 2, 5 / 2, 9 / 5 * sqrt 2]
   \<and> pair_r j p p = jitter ! (j mod 8)
   \<and> j AND 7 = j mod 8"
  using jitter_ring jitter_lengths pair_r_coincident[of j p] and_7_mod_8[of j] by blast

text \<open>
  Claim C9 as stated fails at the odd entries: entry 1 is \<open>(1.8, 1.8)\<close>, whose length
  \<open>1.8\<cdot>\<surd>2\<close> is not 2.5, and which is not \<open>2.5\<cdot>(cos 45\<degree>, sin 45\<degree>)\<close>.
\<close>

theorem jitter_diagonal_not_on_circle:
  "jitter ! 1 = vec2 (9 / 5) (9 / 5)
   \<and> vec2_len (jitter ! 1) \<noteq> 5 / 2
   \<and> jitter ! 1 \<noteq> vec2 (5 / 2 * cos (pi / 4)) (5 / 2 * sin (pi / 4))"
proof -
  have a: "jitter ! 1 = vec2 (9 / 5) (9 / 5)" by (simp add: jitter_def)
  have "vec2_len (jitter ! 1) = 9 / 5 * sqrt 2" unfolding a by (rule vec2_len_diagonal) simp_all
  then have b: "vec2_len (jitter ! 1) \<noteq> 5 / 2" using sqrt2_not_rational_here(1) by simp
  have c: "jitter ! 1 \<noteq> vec2 (5 / 2 * cos (pi / 4)) (5 / 2 * sin (pi / 4))"
    unfolding a using sqrt2_not_rational_here(2) by (simp add: vec2_def cos_45)
  from a b c show ?thesis by blast
qed

subsection \<open>The first step of two coincident friends\<close>

lemma upt_two: "[0..<2] = [0, Suc 0]" "[Suc 0..<2] = [Suc 0]" "[Suc (Suc 0)..<2] = []"
  by (simp_all add: upt_rec)

lemma pair_step_AB:
  "pair_step \<lparr> nodes = [Live (new_Node ''A''), Live (new_Node ''B'')], edges = es,
               pairToEdgeIndex = pm, adj = [Some {Suc 0}, Some {0}] \<rparr> 0 (Suc 0) [vec2 0 0, vec2 0 0]
   = Inr [vec2_sub (vec2_add (vec2 0 0) (fSpring (pair_dir (Suc 0) (vec2 0 0) (vec2 0 0)) (pair_dist (Suc 0) (vec2 0 0) (vec2 0 0))))
                   (fcl (pair_dir (Suc 0) (vec2 0 0) (vec2 0 0)) (pair_dist (Suc 0) (vec2 0 0) (vec2 0 0))),
          vec2_add (vec2_sub (vec2 0 0) (fSpring (pair_dir (Suc 0) (vec2 0 0) (vec2 0 0)) (pair_dist (Suc 0) (vec2 0 0) (vec2 0 0))))
                   (fcl (pair_dir (Suc 0) (vec2 0 0) (vec2 0 0)) (pair_dist (Suc 0) (vec2 0 0) (vec2 0 0)))]"
  by (simp add: pair_step_def slot_at_def adj_at_def Let_def new_Node_def push_def pull_def)

lemma update_AB:
  "update \<lparr> nodes = [Live (new_Node ''A''), Live (new_Node ''B'')], edges = es,
            pairToEdgeIndex = pm, adj = [Some {Suc 0}, Some {0}] \<rparr> t
   = (Inr (),
      \<lparr> nodes = [Live ((new_Node ''A'')\<lparr> pos := vec2_mul (vec2_sub (fSpring (pair_dir (Suc 0) (vec2 0 0) (vec2 0 0)) (pair_dist (Suc 0) (vec2 0 0) (vec2 0 0)))
                   (fcl (pair_dir (Suc 0) (vec2 0 0) (vec2 0 0)) (pair_dist (Suc 0) (vec2 0 0) (vec2 0 0)))) t \<rparr>),
                 Live ((new_Node ''B'')\<lparr> pos := vec2_mul (vec2_sub (fcl (pair_dir (Suc 0) (vec2 0 0) (vec2 0 0)) (pair_dist (Suc 0) (vec2 0 0) (vec2 0 0)))
                   (fSpring (pair_dir (Suc 0) (vec2 0 0) (vec2 0 0)) (pair_dist (Suc 0) (vec2 0 0) (vec2 0 0)))) t \<rparr>)],
        edges = es, pairToEdgeIndex = pm, adj = [Some {Suc 0}, Some {0}] \<rparr>)"
  apply (simp add: update_def Let_def upt_two pair_step_AB)
  apply (simp add: slot_at_def new_Node_def)
  apply (simp add: vec2_def vec2_add_def vec2_sub_def vec2_mul_def)
  done

lemma pair_r_AB: "pair_r (Suc 0) (vec2 0 0) (vec2 0 0) = vec2 (9 / 5) (9 / 5)"
  using pair_r_coincident[of "Suc 0" "vec2 0 0"] by (simp add: jitter_def)

lemma pair_len_AB: "vec2_len (pair_r (Suc 0) (vec2 0 0) (vec2 0 0)) = 9 / 5 * sqrt 2"
  unfolding pair_r_AB by (rule vec2_len_diagonal) simp_all

lemma sqrt2_bounds: "1 < sqrt 2" "sqrt 2 < 2"
proof -
  show "1 < sqrt 2" by simp
  have "sqrt 2 < sqrt 4" by (rule real_sqrt_less_mono) simp
  then show "sqrt 2 < 2" by simp
qed

lemma pair_dist_AB:
  "1 < pair_dist (Suc 0) (vec2 0 0) (vec2 0 0)" "pair_dist (Suc 0) (vec2 0 0) (vec2 0 0) < 140"
proof -
  have l: "1 < 9 / 5 * sqrt 2" using sqrt2_bounds(1) by linarith
  have u: "9 / 5 * sqrt 2 < 140" using sqrt2_bounds(2) by linarith
  show "1 < pair_dist (Suc 0) (vec2 0 0) (vec2 0 0)" using l by (simp add: pair_dist_def pair_len_AB)
  show "pair_dist (Suc 0) (vec2 0 0) (vec2 0 0) < 140" using u by (simp add: pair_dist_def pair_len_AB)
qed

lemma pair_dir_AB:
  "0 < fst (pair_dir (Suc 0) (vec2 0 0) (vec2 0 0))" "0 < snd (pair_dir (Suc 0) (vec2 0 0) (vec2 0 0))"
proof -
  have "pair_dir (Suc 0) (vec2 0 0) (vec2 0 0) = vec2_div (vec2 (9 / 5) (9 / 5)) (9 / 5 * sqrt 2)"
    unfolding pair_dir_def Let_def pair_len_AB by (simp only: pair_r_AB)
  then show "0 < fst (pair_dir (Suc 0) (vec2 0 0) (vec2 0 0))"
    "0 < snd (pair_dir (Suc 0) (vec2 0 0) (vec2 0 0))"
    by (simp_all add: vec2_div_def vec2_def)
qed

lemma push_apart:
  assumes "0 < fst dir" "0 < snd dir" "1 < dst" "dst < 140" "0 < t"
  shows "0 < fst (vec2_mul (vec2_sub (fcl dir dst) (fSpring dir dst)) t)"
    and "0 < snd (vec2_mul (vec2_sub (fcl dir dst) (fSpring dir dst)) t)"
    and "vec2_mul (vec2_sub (fSpring dir dst) (fcl dir dst)) t
         = vec2_neg (vec2_mul (vec2_sub (fcl dir dst) (fSpring dir dst)) t)"
proof -
  define fMag where "fMag = springK * (dst - springRest) * \<bar>dst - springRest\<bar> / springRest"
  define fClose where "fClose = closeRepelK / (dst * dst * dst * dst)"
  have neg: "dst - springRest < 0" using assms(4) by (simp add: springRest_def)
  then have "(dst - springRest) * \<bar>dst - springRest\<bar> < 0" by (simp add: mult_neg_pos)
  then have "springK * ((dst - springRest) * \<bar>dst - springRest\<bar>) < 0"
    by (simp add: springK_def mult_pos_neg)
  then have m: "fMag < 0" by (simp add: fMag_def springRest_def divide_neg_pos mult.assoc)
  have "0 < dst * dst * dst * dst" using assms(3) by simp
  then have c: "0 < fClose" by (simp add: fClose_def closeRepelK_def)
  have d: "0 < fClose - fMag" using m c by simp
  have e1: "fst (vec2_mul (vec2_sub (fcl dir dst) (fSpring dir dst)) t) = fst dir * (fClose - fMag) * t"
    by (simp add: vec2_mul_def vec2_sub_def fcl_def fSpring_def Let_def fMag_def fClose_def algebra_simps)
  have e2: "snd (vec2_mul (vec2_sub (fcl dir dst) (fSpring dir dst)) t) = snd dir * (fClose - fMag) * t"
    by (simp add: vec2_mul_def vec2_sub_def fcl_def fSpring_def Let_def fMag_def fClose_def algebra_simps)
  show "0 < fst (vec2_mul (vec2_sub (fcl dir dst) (fSpring dir dst)) t)"
    unfolding e1 using assms(1,5) d by simp
  show "0 < snd (vec2_mul (vec2_sub (fcl dir dst) (fSpring dir dst)) t)"
    unfolding e2 using assms(2,5) d by simp
  show "vec2_mul (vec2_sub (fSpring dir dst) (fcl dir dst)) t
         = vec2_neg (vec2_mul (vec2_sub (fcl dir dst) (fSpring dir dst)) t)"
    by (simp add: vec2_mul_def vec2_sub_def vec2_neg_def algebra_simps)
qed

lemma vec2_len_pos_fst: "0 < fst v \<Longrightarrow> 0 < vec2_len v"
proof -
  assume "0 < fst v"
  then have "v \<noteq> (0, 0)" by auto
  then have "vec2_len v \<noteq> 0" by (simp add: vec2_len_zero)
  moreover have "0 \<le> vec2_len v" by (simp add: vec2_len_def)
  ultimately show ?thesis by simp
qed

text \<open>
  Claim C8. On the graph that \<open>addFriendGroup(["A", "B"], date)\<close> makes of the empty one,
  where both nodes are at the origin, at distance 0, \<open>update(0.016)\<close> returns normally;
  every divisor of the step is positive (the length of the separation vector that the
  jitter table supplies, the clamped distance, the rest length), so that both new
  positions are finite; A moves to \<open>-p\<close> and B to \<open>p\<close>, where both coordinates of \<open>p\<close>
  are positive, and their distance is positive.
\<close>

theorem first_update_moves_coincident_pair_apart:
  "\<exists>pa pb.
     update (snd (addFriendGroup Graph_new [''A'', ''B''] d)) 0.016 =
       (Inr (), (snd (addFriendGroup Graph_new [''A'', ''B''] d))
                  \<lparr> nodes := [Live ((new_Node ''A'')\<lparr> pos := pa \<rparr>),
                              Live ((new_Node ''B'')\<lparr> pos := pb \<rparr>)] \<rparr>)
     \<and> pa = vec2_neg pb \<and> 0 < fst pb \<and> 0 < snd pb
     \<and> 0 < vec2_len (vec2_sub pb pa)
     \<and> vec2_len (vec2_sub (pos (new_Node ''B'')) (pos (new_Node ''A''))) = 0
     \<and> 0 < vec2_len (pair_r 1 (pos (new_Node ''A'')) (pos (new_Node ''B'')))
     \<and> 1 \<le> pair_dist 1 (pos (new_Node ''A'')) (pos (new_Node ''B''))
     \<and> 0 < springRest"
proof -
  let ?dir = "pair_dir (Suc 0) (vec2 0 0) (vec2 0 0)"
  let ?dst = "pair_dist (Suc 0) (vec2 0 0) (vec2 0 0)"
  let ?pa = "vec2_mul (vec2_sub (fSpring ?dir ?dst) (fcl ?dir ?dst)) 0.016"
  let ?pb = "vec2_mul (vec2_sub (fcl ?dir ?dst) (fSpring ?dir ?dst)) 0.016"
  note P = push_apart[OF pair_dir_AB pair_dist_AB, of "0.016"]
  have u: "update (snd (addFriendGroup Graph_new [''A'', ''B''] d)) 0.016 =
       (Inr (), (snd (addFriendGroup Graph_new [''A'', ''B''] d))
                  \<lparr> nodes := [Live ((new_Node ''A'')\<lparr> pos := ?pa \<rparr>),
                              Live ((new_Node ''B'')\<lparr> pos := ?pb \<rparr>)] \<rparr>)"
    by (simp add: addFriendGroup_AB update_AB)
  have n: "?pa = vec2_neg ?pb" using P(3) by simp
  have f: "0 < fst ?pb" using P(1) by simp
  have s: "0 < snd ?pb" using P(2) by simp
  have "fst (vec2_sub ?pb ?pa) = fst ?pb + fst ?pb" unfolding n by (simp add: vec2_sub_def vec2_neg_def)
  then have "0 < fst (vec2_sub ?pb ?pa)" using f by simp
  then have l: "0 < vec2_len (vec2_sub ?pb ?pa)" by (rule vec2_len_pos_fst)
  have z: "vec2_len (vec2_sub (pos (new_Node ''B'')) (pos (new_Node ''A''))) = 0"
    by (simp add: new_Node_def vec2_sub_def vec2_len_def vec2_def)
  have p: "0 < vec2_len (pair_r 1 (pos (new_Node ''A'')) (pos (new_Node ''B'')))"
    by (rule pair_len_pos)
  have c: "1 \<le> pair_dist 1 (pos (new_Node ''A'')) (pos (new_Node ''B''))"
    by (simp add: pair_dist_def)
  have k: "0 < springRest" by (simp add: springRest_def)
  from u n f s l z p c k show ?thesis by blast
qed

end
